theory Spec2Isabelle
  imports Main "HOL-Library.Sublist"
begin

section \<open>Text, as the Python sources see it\<close>

text \<open>
  A Python \<^verbatim>\<open>str\<close> is a sequence of code points; the model takes the code points
  below 256, one \<^typ>\<open>char\<close> each. The character classes below are the ones Python
  uses on that range.
\<close>

definition dollar :: char where
  "dollar = CHR ''$''"

definition lbrace :: char where
  "lbrace = CHR ''{''"

definition rbrace :: char where
  "rbrace = CHR ''}''"

definition newline :: char where
  "newline = CHR 0x0A"

definition carriage_return :: char where
  "carriage_return = CHR 0x0D"

definition backslash :: char where
  "backslash = CHR 0x5C"

definition dquote :: char where
  "dquote = CHR 0x22"

text \<open>\<^verbatim>\<open>str.isspace\<close>, which \<^verbatim>\<open>str.strip\<close> and \<^verbatim>\<open>str.lstrip\<close> without argument use.\<close>

definition is_space :: "char \<Rightarrow> bool" where
  "is_space c = (let n = (of_char c :: nat) in
     (9 \<le> n \<and> n \<le> 13) \<or> (28 \<le> n \<and> n \<le> 32) \<or> n = 133 \<or> n = 160)"

definition lstrip :: "string \<Rightarrow> string" where
  "lstrip s = dropWhile is_space s"

definition strip :: "string \<Rightarrow> string" where
  "strip s = rev (dropWhile is_space (rev (dropWhile is_space s)))"

text \<open>\<^verbatim>\<open>s.startswith(p)\<close>, comparing from the left and stopping at the first difference.\<close>

fun startswith :: "string \<Rightarrow> string \<Rightarrow> bool" where
  "startswith s [] = True"
| "startswith [] (p # ps) = False"
| "startswith (c # cs) (p # ps) = (if c = p then startswith cs ps else False)"

section \<open>fix\_braces.py\<close>

subsection \<open>The reference scanner\<close>

text \<open>The set \<^verbatim>\<open>special_vars\<close>: the one-character strings of \<^verbatim>\<open>@*!?$-#\<close> and the ten digits.\<close>

definition special_vars :: "string list" where
  "special_vars = map (\<lambda>c. [c]) ''@*!?$-#0123456789''"

definition should_skip_variable :: "string \<Rightarrow> bool" where
  "should_skip_variable var_name = (var_name \<in> set special_vars)"

text \<open>The characters of \<^verbatim>\<open>'@*!?$-#0123456789'\<close>, tested on line 36.\<close>

definition special_chars :: string where
  "special_chars = ''@*!?$-#0123456789''"

text \<open>The classes \<^verbatim>\<open>[A-Za-z_]\<close> and \<^verbatim>\<open>[A-Za-z0-9_]\<close> of the regular expression on line 42.\<close>

definition ident_start :: "char \<Rightarrow> bool" where
  "ident_start c = (let n = (of_char c :: nat) in
     (65 \<le> n \<and> n \<le> 90) \<or> (97 \<le> n \<and> n \<le> 122) \<or> n = 95)"

definition ident_char :: "char \<Rightarrow> bool" where
  "ident_char c = (let n = (of_char c :: nat) in
     (65 \<le> n \<and> n \<le> 90) \<or> (97 \<le> n \<and> n \<le> 122) \<or> (48 \<le> n \<and> n \<le> 57) \<or> n = 95)"

text \<open>
  \<^verbatim>\<open>re.match(r'([A-Za-z_][A-Za-z0-9_]*)', s)\<close>: anchored at the start of \<open>s\<close>, the star
  greedy, so group 1 is the longest identifier \<open>s\<close> begins with.
\<close>

definition match_identifier :: "string \<Rightarrow> string option" where
  "match_identifier s = (case s of
       [] \<Rightarrow> None
     | c # cs \<Rightarrow> if ident_start c then Some (c # takeWhile ident_char cs) else None)"

text \<open>
  The \<^verbatim>\<open>while i < len(line)\<close> loop of \<^verbatim>\<open>add_braces_to_line\<close>. The loop reads the line
  from \<open>i\<close> on only, so the model recurses on \<^verbatim>\<open>line[i:]\<close> and returns what the loop
  appends to \<^verbatim>\<open>result\<close> from there.
\<close>

fun add_braces_loop :: "string \<Rightarrow> string" where
  "add_braces_loop [] = []"
| "add_braces_loop (c # cs) =
     (if c = dollar \<and> cs \<noteq> [] then
        (if hd cs = lbrace then c # hd cs # add_braces_loop (tl cs)
         else if hd cs \<in> set special_chars then c # hd cs # add_braces_loop (tl cs)
         else (case match_identifier cs of
                 Some var_name \<Rightarrow>
                   (if \<not> should_skip_variable var_name
                    then [dollar, lbrace] @ var_name @ [rbrace]
                           @ add_braces_loop (drop (length var_name) cs)
                    else c # take (length var_name) cs
                           @ add_braces_loop (drop (length var_name) cs))
               | None \<Rightarrow> c # add_braces_loop cs))
      else c # add_braces_loop cs)"

definition add_braces_to_line :: "string \<Rightarrow> string" where
  "add_braces_to_line line =
     (if startswith (lstrip line) ''#'' then line else add_braces_loop line)"


text \<open>
  The classification of section 4.1, written from the specification's words: the tokens
  of a line, what each token is in the input, and what the scanner is to emit for it.
\<close>

datatype variable_token =
    Already_Bracketed
  | Special_Sigil char
  | Identifier_Ref string
  | Literal_Char char

function spec_classify :: "string \<Rightarrow> variable_token list" where
  "spec_classify [] = []"
| "spec_classify (c # cs) =
     (if c \<noteq> dollar then Literal_Char c # spec_classify cs
      else (case cs of
              [] \<Rightarrow> [Literal_Char c]
            | d # ds \<Rightarrow>
                if d = lbrace then Already_Bracketed # spec_classify ds
                else if d \<in> set special_chars then Special_Sigil d # spec_classify ds
                else if ident_start d
                  then Identifier_Ref (d # takeWhile ident_char ds)
                         # spec_classify (dropWhile ident_char ds)
                else Literal_Char c # spec_classify cs))"
  by pat_completeness auto
termination
  by (relation "measure length") (auto simp: less_Suc_eq_le intro: le_SucI length_dropWhile_le)

fun source_text :: "variable_token \<Rightarrow> string" where
  "source_text Already_Bracketed = [dollar, lbrace]"
| "source_text (Special_Sigil d) = [dollar, d]"
| "source_text (Identifier_Ref name) = dollar # name"
| "source_text (Literal_Char c) = [c]"

fun spec_emit :: "variable_token \<Rightarrow> string" where
  "spec_emit (Identifier_Ref name) = [dollar, lbrace] @ name @ [rbrace]"
| "spec_emit t = source_text t"

definition spec_scan :: "string \<Rightarrow> string" where
  "spec_scan line = concat (map spec_emit (spec_classify line))"

definition is_comment_line :: "string \<Rightarrow> bool" where
  "is_comment_line line = startswith (lstrip line) ''#''"

subsection \<open>Files\<close>

text \<open>
  A file system maps a path to the text stored under it. Both scripts open files in
  text mode with the default \<^verbatim>\<open>newline=None\<close>: reading turns \<^verbatim>\<open>\r\n\<close> and a lone
  \<^verbatim>\<open>\r\<close> into \<^verbatim>\<open>\n\<close>, writing (the scripts run on Linux) stores the text as it is.
  A path that cannot be opened raises, which is \<open>None\<close> here.
\<close>

type_synonym 'p filesystem = "'p \<rightharpoonup> string"

datatype exception = Exception

fun universal_newlines :: "string \<Rightarrow> string" where
  "universal_newlines [] = []"
| "universal_newlines [c] = (if c = carriage_return then [newline] else [c])"
| "universal_newlines (c # d # ds) =
     (if c = carriage_return
      then (if d = newline then newline # universal_newlines ds
            else newline # universal_newlines (d # ds))
      else c # universal_newlines (d # ds))"

definition read_text :: "'p filesystem \<Rightarrow> 'p \<Rightarrow> exception + string" where
  "read_text fs path =
     (case fs path of None \<Rightarrow> Inl Exception | Some raw \<Rightarrow> Inr (universal_newlines raw))"

text \<open>\<^verbatim>\<open>f.readlines()\<close> on text already read: each line keeps its \<^verbatim>\<open>\n\<close>.\<close>

function keep_ends :: "string \<Rightarrow> string list" where
  "keep_ends s =
     (if s = [] then []
      else (case dropWhile (\<lambda>c. c \<noteq> newline) s of
              [] \<Rightarrow> [s]
            | _ # after \<Rightarrow> (takeWhile (\<lambda>c. c \<noteq> newline) s @ [newline]) # keep_ends after))"
  by pat_completeness auto
termination
proof (relation "measure length")
  show "wf (measure length)" by simp
next
  fix s :: string and x after
  assume "dropWhile (\<lambda>c. c \<noteq> newline) s = x # after"
  then have "length after < length (dropWhile (\<lambda>c. c \<noteq> newline) s)" by simp
  also have "\<dots> \<le> length s" by (rule length_dropWhile_le)
  finally show "(after, s) \<in> measure length" by simp
qed

declare keep_ends.simps [simp del]

definition readlines :: "string \<Rightarrow> string list" where
  "readlines raw = keep_ends (universal_newlines raw)"

subsection \<open>fix\_file and the scanner's batch driver\<close>

text \<open>
  \<^verbatim>\<open>bash -n\<close> is the oracle, run by \<^verbatim>\<open>subprocess.run\<close> on the text it finds in the file:
  it gives the return code of the shell (\<open>Inr\<close>), 0 for a text the shell accepts, or
  raises (\<open>Inl\<close>), as it does when the shell cannot be started. The whole body of
  \<^verbatim>\<open>fix_file\<close> stands in a \<^verbatim>\<open>try\<close> whose handler returns \<^verbatim>\<open>False\<close> and restores nothing: that
  is the result for a file that cannot be read, which is left as it is, and for an oracle
  that raises, after line 74 has written the new text. Writing a file that was read is
  taken to succeed.
\<close>

type_synonym syntax_check = "string \<Rightarrow> exception + int"

definition fix_file :: "syntax_check \<Rightarrow> 'p filesystem \<Rightarrow> 'p \<Rightarrow> bool \<times> 'p filesystem" where
  "fix_file oracle fs file_path =
     (case fs file_path of
        None \<Rightarrow> (False, fs)
      | Some raw \<Rightarrow>
          let lines = readlines raw;
              fixed_lines = map add_braces_to_line lines
          in if lines = fixed_lines then (False, fs)
             else let fs1 = fs(file_path \<mapsto> concat fixed_lines)
                  in (case oracle (concat fixed_lines) of
                        Inl e \<Rightarrow> (False, fs1)
                      | Inr returncode \<Rightarrow>
                          if returncode \<noteq> 0
                          then (False, fs1(file_path \<mapsto> concat lines))
                          else (True, fs1)))"

fun fix_all ::
  "syntax_check \<Rightarrow> 'p filesystem \<Rightarrow> 'p list \<Rightarrow> nat \<Rightarrow> nat \<times> 'p filesystem" where
  "fix_all oracle fs [] fixed_count = (fixed_count, fs)"
| "fix_all oracle fs (file_path # more) fixed_count =
     (case fix_file oracle fs file_path of
        (True, fs') \<Rightarrow> fix_all oracle fs' more (fixed_count + 1)
      | (False, fs') \<Rightarrow> fix_all oracle fs' more fixed_count)"

text \<open>
  \<^verbatim>\<open>main\<close> of fix\_braces.py over the files \<^verbatim>\<open>rglob\<close> found. It returns nothing and the
  script calls it without \<^verbatim>\<open>sys.exit\<close>, so the process ends with status 0 whatever
  \<^verbatim>\<open>fixed_count\<close> is; the status is the first component.
\<close>

definition fix_braces_main ::
  "syntax_check \<Rightarrow> 'p filesystem \<Rightarrow> 'p list \<Rightarrow> nat \<times> 'p filesystem" where
  "fix_braces_main oracle fs shell_files =
     (case fix_all oracle fs shell_files 0 of (fixed_count, fs') \<Rightarrow> (0, fs'))"

text \<open>The text \<^verbatim>\<open>fix_file\<close> writes on line 74 for a file that holds \<open>raw\<close>.\<close>

definition fixed_text :: "string \<Rightarrow> string" where
  "fixed_text raw = concat (map add_braces_to_line (readlines raw))"

text \<open>
  An oracle that finds a syntax error in every file (the shell ends with 2 then), and one
  that cannot start the shell.
\<close>

definition rejecting_oracle :: syntax_check where
  "rejecting_oracle script_text = Inr 2"

definition raising_oracle :: syntax_check where
  "raising_oracle script_text = Inl Exception"

section \<open>refactor\_env\_injection.py and refactor\_sprite\_env.py\<close>

subsection \<open>String methods\<close>

text \<open>\<^verbatim>\<open>s.split(sep)\<close> for a separator of one character.\<close>

function str_split :: "char \<Rightarrow> string \<Rightarrow> string list" where
  "str_split sep s =
     (case dropWhile (\<lambda>c. c \<noteq> sep) s of
        [] \<Rightarrow> [s]
      | _ # after \<Rightarrow> takeWhile (\<lambda>c. c \<noteq> sep) s # str_split sep after)"
  by pat_completeness auto
termination
proof (relation "measure (\<lambda>(sep, s). length s)")
  show "wf (measure (\<lambda>(sep, s). length s))" by simp
next
  fix sep :: char and s :: string and x after
  assume "dropWhile (\<lambda>c. c \<noteq> sep) s = x # after"
  then have "length after < length (dropWhile (\<lambda>c. c \<noteq> sep) s)" by simp
  also have "\<dots> \<le> length s" by (rule length_dropWhile_le)
  finally show "((sep, after), (sep, s)) \<in> measure (\<lambda>(sep, s). length s)" by simp
qed

declare str_split.simps [simp del]

text \<open>
  \<^verbatim>\<open>s.replace(old, new)\<close>: every occurrence of \<open>old\<close>, found from the left and not
  overlapping, becomes \<open>new\<close>; an empty \<open>old\<close> matches before every character and at the end.
\<close>

function str_replace :: "string \<Rightarrow> string \<Rightarrow> string \<Rightarrow> string" where
  "str_replace old new s =
     (if old = [] then new @ concat (map (\<lambda>c. c # new) s)
      else (case s of
              [] \<Rightarrow> []
            | c # cs \<Rightarrow>
                if startswith s old then new @ str_replace old new (drop (length old) s)
                else c # str_replace old new cs))"
  by pat_completeness auto
termination
  by (relation "measure (\<lambda>(old, new, s). length s)") auto

declare str_replace.simps [simp del]

fun str_join :: "string \<Rightarrow> string list \<Rightarrow> string" where
  "str_join sep [] = []"
| "str_join sep [x] = x"
| "str_join sep (x # y # ys) = x @ sep @ str_join sep (y # ys)"

subsection \<open>The fragment of Python's re that the patterns use\<close>

text \<open>
  A pattern is matched by backtracking: \<open>rx_match r st\<close> lists the states in which \<open>r\<close> can
  end when started in \<open>st\<close>, in the order in which the backtracking matcher tries them, so
  that the head of the list is the match Python reports. A state holds the text still to
  be read, the character before it (for \<^verbatim>\<open>^\<close> under \<^verbatim>\<open>re.MULTILINE\<close>) and the bounds of
  group 1 as the text remaining at its start and at its end. \<open>Dot\<close> is \<^verbatim>\<open>.\<close> under
  \<^verbatim>\<open>re.DOTALL\<close>, which matches any one character, the newline too; \<open>Star_Lazy any_char\<close>
  is \<^verbatim>\<open>.*?\<close>; \<open>Plus_Greedy\<close> is \<^verbatim>\<open>\d+\<close> and \<^verbatim>\<open>\w+\<close>; \<open>Opt\<close> is \<^verbatim>\<open>(?:...)?\<close>.
\<close>

datatype rx =
    Lit string
  | Dot
  | Plus_Greedy "char \<Rightarrow> bool"
  | Star_Lazy "char \<Rightarrow> bool"
  | Bol
  | Seq rx rx
  | Alt rx rx
  | Opt rx
  | Group rx

datatype mstate =
  MState (st_rest: string) (st_prev: "char option") (st_group: "(string \<times> string) option")

fun run_states ::
  "(char \<Rightarrow> bool) \<Rightarrow> string \<Rightarrow> char option \<Rightarrow> (string \<times> string) option \<Rightarrow> mstate list" where
  "run_states P [] p g = [MState [] p g]"
| "run_states P (c # cs) p g =
     MState (c # cs) p g # (if P c then run_states P cs (Some c) g else [])"

definition consume :: "string \<Rightarrow> mstate \<Rightarrow> mstate" where
  "consume lit st =
     MState (drop (length lit) (st_rest st))
       (case rev lit of [] \<Rightarrow> st_prev st | c # _ \<Rightarrow> Some c) (st_group st)"

text \<open>The text between two positions, each given by what remains to be read there.\<close>

definition consumed :: "string \<Rightarrow> string \<Rightarrow> string" where
  "consumed s s' = take (length s - length s') s"

definition group_text :: "mstate \<Rightarrow> string option" where
  "group_text st = (case st_group st of None \<Rightarrow> None | Some (s, s') \<Rightarrow> Some (consumed s s'))"

fun rx_match :: "rx \<Rightarrow> mstate \<Rightarrow> mstate list" where
  "rx_match (Lit lit) st = (if startswith (st_rest st) lit then [consume lit st] else [])"
| "rx_match Dot st =
     (case st_rest st of [] \<Rightarrow> [] | c # cs \<Rightarrow> [MState cs (Some c) (st_group st)])"
| "rx_match (Plus_Greedy P) st = rev (tl (run_states P (st_rest st) (st_prev st) (st_group st)))"
| "rx_match (Star_Lazy P) st = run_states P (st_rest st) (st_prev st) (st_group st)"
| "rx_match Bol st = (if st_prev st = None \<or> st_prev st = Some newline then [st] else [])"
| "rx_match (Seq a b) st = concat (map (rx_match b) (rx_match a st))"
| "rx_match (Alt a b) st = rx_match a st @ rx_match b st"
| "rx_match (Opt a) st = rx_match a st @ [st]"
| "rx_match (Group a) st =
     map (\<lambda>st'. MState (st_rest st') (st_prev st') (Some (st_rest st, st_rest st')))
       (rx_match a st)"

text \<open>
  A match object: the text before the match, \<^verbatim>\<open>group(0)\<close>, \<^verbatim>\<open>group(1)\<close> and the text
  after the match. \<^verbatim>\<open>pattern.search\<close> tries the start positions from the left; \<open>seen\<close> is
  the text already passed, last character first.
\<close>

datatype match_object =
  Match (m_before: string) (m_group0: string) (m_group1: "string option") (m_after: string)

fun search_from :: "rx \<Rightarrow> string \<Rightarrow> string \<Rightarrow> match_object option" where
  "search_from r seen [] =
     (case rx_match r (MState [] (case seen of [] \<Rightarrow> None | p # _ \<Rightarrow> Some p) None) of
        [] \<Rightarrow> None
      | st # _ \<Rightarrow> Some (Match (rev seen) [] (group_text st) []))"
| "search_from r seen (c # cs) =
     (case rx_match r (MState (c # cs) (case seen of [] \<Rightarrow> None | p # _ \<Rightarrow> Some p) None) of
        [] \<Rightarrow> search_from r (c # seen) cs
      | st # _ \<Rightarrow>
          Some (Match (rev seen) (consumed (c # cs) (st_rest st)) (group_text st) (st_rest st)))"

definition re_search :: "rx \<Rightarrow> string \<Rightarrow> match_object option" where
  "re_search r s = search_from r [] s"

subsection \<open>Replacement templates and substitution\<close>

text \<open>
  \<^verbatim>\<open>pattern.sub(repl, string)\<close> reads \<open>repl\<close> as a template: a backslash starts an escape
  or a group reference (\<^verbatim>\<open>\1\<close>, \<^verbatim>\<open>\g<1>\<close>), and a template that does not parse raises.
  \<open>parse_template\<close> follows \<^verbatim>\<open>parse_template\<close> of CPython's \<^verbatim>\<open>re\<close> module, with group names
  read as CPython 3.12 reads them (decimal digits only); \<open>groups\<close> is the number of groups
  of the pattern. The exceptions it can raise are not told apart.
\<close>

datatype template_item = T_Char char | T_Group nat

definition is_digit :: "char \<Rightarrow> bool" where
  "is_digit c = (let n = (of_char c :: nat) in 48 \<le> n \<and> n \<le> 57)"

definition is_octdigit :: "char \<Rightarrow> bool" where
  "is_octdigit c = (let n = (of_char c :: nat) in 48 \<le> n \<and> n \<le> 55)"

definition is_ascii_letter :: "char \<Rightarrow> bool" where
  "is_ascii_letter c = (let n = (of_char c :: nat) in
     (65 \<le> n \<and> n \<le> 90) \<or> (97 \<le> n \<and> n \<le> 122))"

definition digit_val :: "char \<Rightarrow> nat" where
  "digit_val c = of_char c - 48"

definition int_of_digits :: "nat \<Rightarrow> string \<Rightarrow> nat" where
  "int_of_digits base ds = foldl (\<lambda>acc d. base * acc + digit_val d) 0 ds"

definition escape_char :: "char \<Rightarrow> char option" where
  "escape_char c =
     (if c = CHR ''a'' then Some (CHR 0x07)
      else if c = CHR ''b'' then Some (CHR 0x08)
      else if c = CHR ''f'' then Some (CHR 0x0C)
      else if c = CHR ''n'' then Some (CHR 0x0A)
      else if c = CHR ''r'' then Some (CHR 0x0D)
      else if c = CHR ''t'' then Some (CHR 0x09)
      else if c = CHR ''v'' then Some (CHR 0x0B)
      else if c = backslash then Some backslash
      else None)"

definition then_items ::
  "template_item list \<Rightarrow> exception + template_item list \<Rightarrow> exception + template_item list" where
  "then_items items r = (case r of Inl e \<Rightarrow> Inl e | Inr more \<Rightarrow> Inr (items @ more))"

definition add_group ::
  "nat \<Rightarrow> nat \<Rightarrow> exception + template_item list \<Rightarrow> exception + template_item list" where
  "add_group groups index r =
     (if index > groups then Inl Exception else then_items [T_Group index] r)"

function parse_template :: "nat \<Rightarrow> string \<Rightarrow> exception + template_item list" where
  "parse_template groups [] = Inr []"
| "parse_template groups (c # cs) =
     (if c \<noteq> backslash then then_items [T_Char c] (parse_template groups cs)
      else (case cs of
        [] \<Rightarrow> Inl Exception
      | e # es \<Rightarrow>
          if e = CHR ''g'' then
            (case es of
               [] \<Rightarrow> Inl Exception
             | lt # ns \<Rightarrow>
                 let name = takeWhile (\<lambda>x. x \<noteq> CHR ''>'') ns;
                     tail = dropWhile (\<lambda>x. x \<noteq> CHR ''>'') ns
                 in if lt \<noteq> CHR ''<'' \<or> tail = [] \<or> name = [] \<or> \<not> list_all is_digit name
                    then Inl Exception
                    else add_group groups (int_of_digits 10 name) (parse_template groups (tl tail)))
          else if e = CHR ''0'' then
            (let ds = takeWhile is_octdigit (take 2 es)
             in then_items [T_Char (char_of (int_of_digits 8 ds mod 256))]
                  (parse_template groups (drop (length ds) es)))
          else if is_digit e then
            (if es \<noteq> [] \<and> is_digit (hd es) then
               (if is_octdigit e \<and> is_octdigit (hd es) \<and> tl es \<noteq> [] \<and> is_octdigit (hd (tl es)) then
                  (if int_of_digits 8 (e # take 2 es) > 255 then Inl Exception
                   else then_items [T_Char (char_of (int_of_digits 8 (e # take 2 es)))]
                          (parse_template groups (drop 2 es)))
                else add_group groups (int_of_digits 10 [e, hd es]) (parse_template groups (tl es)))
             else add_group groups (digit_val e) (parse_template groups es))
          else (case escape_char e of
                  Some x \<Rightarrow> then_items [T_Char x] (parse_template groups es)
                | None \<Rightarrow>
                    if is_ascii_letter e then Inl Exception
                    else then_items [T_Char c, T_Char e] (parse_template groups es))))"
  by pat_completeness auto
termination
proof (relation "measure (\<lambda>(groups, s). length s)", goal_cases)
  case 1
  then show ?case by simp
next
  case (3 groups c cs e es lt ns name tail)
  have "length (tl tail) \<le> length tail" by simp
  also have "\<dots> \<le> length ns" using 3 by (simp add: length_dropWhile_le)
  finally show ?case using 3 by simp
qed (auto simp: less_Suc_eq_le intro: le_SucI)

text \<open>\<^verbatim>\<open>expand_template\<close>: a group that took no part in the match expands to nothing.\<close>

fun expand_template :: "template_item list \<Rightarrow> string \<Rightarrow> string option \<Rightarrow> string" where
  "expand_template [] g0 g1 = []"
| "expand_template (T_Char c # items) g0 g1 = c # expand_template items g0 g1"
| "expand_template (T_Group n # items) g0 g1 =
     (if n = 0 then g0 else (case g1 of None \<Rightarrow> [] | Some g \<Rightarrow> g))
       @ expand_template items g0 g1"

text \<open>
  The substitution loop: every match, found from the left and not overlapping, is replaced
  by the expanded template, and the text between matches is copied. After an empty match
  the next one at the same place must not be empty (\<open>must_advance\<close>).
\<close>

function sub_from ::
  "rx \<Rightarrow> template_item list \<Rightarrow> char option \<Rightarrow> bool \<Rightarrow> string \<Rightarrow> string" where
  "sub_from r tmpl p must_advance s =
     (case filter (\<lambda>st. \<not> must_advance \<or> length (st_rest st) < length s)
             (rx_match r (MState s p None)) of
        st # _ \<Rightarrow>
          expand_template tmpl (consumed s (st_rest st)) (group_text st)
            @ (if length (st_rest st) < length s
               then sub_from r tmpl (st_prev st) False (st_rest st)
               else sub_from r tmpl p True s)
      | [] \<Rightarrow> (case s of [] \<Rightarrow> [] | c # cs \<Rightarrow> c # sub_from r tmpl (Some c) False cs))"
  by pat_completeness auto
termination
  by (relation "measures [\<lambda>(r, tmpl, p, adv, s). length s,
                          \<lambda>(r, tmpl, p, adv, s). if adv then 0 else 1]")
     (auto dest!: filter_eq_ConsD)

declare sub_from.simps [simp del]

definition re_sub :: "rx \<Rightarrow> string \<Rightarrow> string \<Rightarrow> exception + string" where
  "re_sub r repl s =
     (case parse_template 1 repl of
        Inl e \<Rightarrow> Inl e
      | Inr tmpl \<Rightarrow> Inr (sub_from r tmpl None False s))"

subsection \<open>The idiom patterns\<close>

text \<open>
  \<^verbatim>\<open>\d\<close> and \<^verbatim>\<open>\w\<close> of a \<^verbatim>\<open>str\<close> pattern, on the code points below 256. The patterns
  splice \<^verbatim>\<open>server_ip_var\<close> into the expression unescaped; it is a literal here, which is
  what it is for a name of letters, digits and underscores, as all the configured ones are
  (\<open>cloud_configs\<close> below); a name with a character that the expression language reads as
  an operator is not covered. The dot of \<^verbatim>\<open>~/.zshrc\<close> is not escaped in the source, so it
  is \<open>Dot\<close> and not a literal.
\<close>

definition is_word :: "char \<Rightarrow> bool" where
  "is_word c = (let n = (of_char c :: nat) in
     (48 \<le> n \<and> n \<le> 57) \<or> (65 \<le> n \<and> n \<le> 90) \<or> n = 95 \<or> (97 \<le> n \<and> n \<le> 122)
     \<or> n = 170 \<or> n = 178 \<or> n = 179 \<or> n = 181 \<or> n = 185 \<or> n = 186
     \<or> (188 \<le> n \<and> n \<le> 190) \<or> (192 \<le> n \<and> n \<le> 214) \<or> (216 \<le> n \<and> n \<le> 246)
     \<or> 248 \<le> n)"

definition any_char :: "char \<Rightarrow> bool" where
  "any_char c = True"

fun seq :: "rx list \<Rightarrow> rx" where
  "seq [] = Lit []"
| "seq [r] = r"
| "seq (r # rs) = Seq r (seq rs)"

definition pattern1 :: "string \<Rightarrow> rx" where
  "pattern1 server_ip_var = seq [
     Lit ''# '',
     Alt (Seq (Plus_Greedy is_digit) (Lit ''.'')) (Seq (Plus_Greedy is_word) (Lit '':'')),
     Lit '' '',
     Alt (Lit ''Inject environment variables'') (Lit ''Setting up environment variables''),
     Star_Lazy any_char, Lit [newline],
     Lit ''log_warn \"Setting up environment variables...\"'', Lit [newline],
     Lit [newline],
     Lit ''ENV_TEMP=$(mktemp)'', Lit [newline],
     Lit ''chmod 600 \"$ENV_TEMP\"'', Lit [newline],
     Lit ''cat > \"$ENV_TEMP\" << EOF'', Lit [newline],
     Group (Star_Lazy any_char),
     Bol, Lit ''EOF'', Lit [newline],
     Lit [newline],
     Lit (''upload_file \"$'' @ server_ip_var @ ''\" \"$ENV_TEMP\" \"/tmp/env_config\"''),
     Lit [newline],
     Lit (''run_server \"$'' @ server_ip_var @ ''\" \"cat /tmp/env_config >> ~/''), Dot,
     Lit ''zshrc && rm /tmp/env_config\"'',
     Lit [newline],
     Lit ''rm \"$ENV_TEMP\"'', Lit [newline]]"

definition pattern2 :: "string \<Rightarrow> rx" where
  "pattern2 server_ip_var = seq [
     Lit ''log_warn \"Setting up environment variables...\"'', Lit [newline],
     Lit ''ENV_TEMP=$(mktemp)'', Lit [newline],
     Lit ''chmod 600 \"$ENV_TEMP\"'', Lit [newline],
     Lit ''cat > \"$ENV_TEMP\" << EOF'', Lit [newline],
     Group (Star_Lazy any_char),
     Bol, Lit ''EOF'', Lit [newline],
     Lit (''upload_file \"$'' @ server_ip_var @ ''\" \"$ENV_TEMP\" \"/tmp/env_config\"''),
     Lit [newline],
     Lit (''run_server \"$'' @ server_ip_var @ ''\" \"cat /tmp/env_config >> ~/''), Dot,
     Lit ''zshrc && rm /tmp/env_config\"'',
     Lit [newline],
     Lit ''rm \"$ENV_TEMP\"'', Lit [newline]]"

definition sprite_pattern :: rx where
  "sprite_pattern = seq [
     Lit ''# Inject environment variables'', Lit [newline],
     Lit ''log_warn \"Setting up environment variables...\"'', Lit [newline],
     Lit [newline],
     Opt (Seq (Lit ''# Create temp file with env config'') (Lit [newline])),
     Lit ''ENV_TEMP=$(mktemp)'', Lit [newline],
     Lit ''chmod 600 \"$ENV_TEMP\"'', Lit [newline],
     Lit ''cat > \"$ENV_TEMP\" << EOF'', Lit [newline],
     Group (Star_Lazy any_char),
     Bol, Lit ''EOF'', Lit [newline],
     Lit [newline],
     Opt (Seq (Lit ''# Upload and append to zshrc'') (Lit [newline])),
     Lit (''sprite exec -s \"$SPRITE_NAME\" -file \"$ENV_TEMP:/tmp/env_config\" -- bash -c ''
            @ ''\"cat /tmp/env_config >> ~/''), Dot,
     Lit ''zshrc && rm /tmp/env_config\"'',
     Lit [newline],
     Lit ''rm \"$ENV_TEMP\"'', Lit [newline]]"

text \<open>
  Lines 67 to 74 of refactor\_env\_injection.py: \<^verbatim>\<open>pattern1\<close> first, \<^verbatim>\<open>pattern2\<close> when it
  finds nothing; the pattern chosen is searched once more, with the same result.
\<close>

definition find_idiom :: "string \<Rightarrow> string \<Rightarrow> rx \<times> match_object option" where
  "find_idiom server_ip_var content =
     (case re_search (pattern1 server_ip_var) content of
        Some m \<Rightarrow> (pattern1 server_ip_var, Some m)
      | None \<Rightarrow> (pattern2 server_ip_var, re_search (pattern2 server_ip_var) content))"

subsection \<open>Extraction of the export lines\<close>

text \<open>
  The body of the \<^verbatim>\<open>if line.startswith('export ')\<close> branch, before the quotes are added:
  the keyword is removed by \<^verbatim>\<open>replace\<close> (line 85) and three reference forms are
  rewritten (lines 87 to 89). The loop is the same text in both scripts.
\<close>

definition canonical_refs :: "string \<Rightarrow> string" where
  "canonical_refs var_line =
     str_replace ''${MODEL_ID}'' ''$MODEL_ID''
       (str_replace ''${OPENROUTER_API_KEY}'' ''$OPENROUTER_API_KEY''
         (str_replace ''\"${OPENROUTER_API_KEY}\"'' ''$OPENROUTER_API_KEY'' var_line))"

definition export_var_line :: "string \<Rightarrow> string" where
  "export_var_line line = canonical_refs (str_replace ''export '' [] line)"

fun extract_loop :: "string list \<Rightarrow> string list \<Rightarrow> string list" where
  "extract_loop env_vars [] = env_vars"
| "extract_loop env_vars (l # ls) =
     (let line = strip l in
      if startswith line ''export ''
      then extract_loop (env_vars @ [[dquote] @ export_var_line line @ [dquote]]) ls
      else extract_loop env_vars ls)"

definition extract_exports :: "string \<Rightarrow> string list" where
  "extract_exports heredoc_content = extract_loop [] (str_split newline heredoc_content)"

subsection \<open>The per-file refactoring\<close>

definition arg_separator :: string where
  "arg_separator = '' '' @ [backslash, newline] @ ''    ''"

definition ssh_replacement :: "string \<Rightarrow> string list \<Rightarrow> string" where
  "ssh_replacement server_ip_var env_vars =
     ''log_warn \"Setting up environment variables...\"'' @ [newline]
     @ ''inject_env_vars_ssh \"$'' @ server_ip_var @ ''\" upload_file run_server ''
     @ [backslash, newline]
     @ ''    '' @ str_join arg_separator env_vars @ [newline]"

definition sprite_replacement :: "string list \<Rightarrow> string" where
  "sprite_replacement env_vars =
     ''log_warn \"Setting up environment variables...\"'' @ [newline]
     @ ''inject_env_vars_sprite \"$SPRITE_NAME\" '' @ [backslash, newline]
     @ ''    '' @ str_join arg_separator env_vars @ [newline]"

text \<open>
  What a refactoring function does with the text it read: the three failures it prints,
  the new text it writes, or an exception it lets through (from \<^verbatim>\<open>pattern.sub\<close>, or from
  \<^verbatim>\<open>match.group(1)\<close> being \<^verbatim>\<open>None\<close>).
\<close>

datatype outcome =
    Pattern_Not_Found
  | No_Env_Vars
  | No_Changes
  | Refactored string
  | Raised

definition rewrite_match :: "rx \<Rightarrow> (string list \<Rightarrow> string) \<Rightarrow> match_object \<Rightarrow> string \<Rightarrow> outcome" where
  "rewrite_match pattern replacement m content =
     (case m_group1 m of
        None \<Rightarrow> Raised
      | Some heredoc_content \<Rightarrow>
          let env_vars = extract_exports heredoc_content in
          if env_vars = [] then No_Env_Vars
          else (case re_sub pattern (replacement env_vars) content of
                  Inl e \<Rightarrow> Raised
                | Inr new_content \<Rightarrow>
                    if new_content = content then No_Changes else Refactored new_content))"

definition refactor_ssh_cloud_text :: "string \<Rightarrow> string \<Rightarrow> outcome" where
  "refactor_ssh_cloud_text server_ip_var content =
     (case find_idiom server_ip_var content of
        (pattern, None) \<Rightarrow> Pattern_Not_Found
      | (pattern, Some m) \<Rightarrow> rewrite_match pattern (ssh_replacement server_ip_var) m content)"

definition refactor_sprite_text :: "string \<Rightarrow> outcome" where
  "refactor_sprite_text content =
     (case re_search sprite_pattern content of
        None \<Rightarrow> Pattern_Not_Found
      | Some m \<Rightarrow> rewrite_match sprite_pattern sprite_replacement m content)"

text \<open>
  A refactoring function returns \<^verbatim>\<open>True\<close> or \<^verbatim>\<open>False\<close>, or raises; it writes the file
  only in the first case.
\<close>

definition commit :: "'p filesystem \<Rightarrow> 'p \<Rightarrow> outcome \<Rightarrow> (exception + bool) \<times> 'p filesystem" where
  "commit fs filepath out =
     (case out of
        Refactored new_content \<Rightarrow> (Inr True, fs(filepath \<mapsto> new_content))
      | Raised \<Rightarrow> (Inl Exception, fs)
      | _ \<Rightarrow> (Inr False, fs))"

definition refactor_ssh_cloud_script ::
  "'p filesystem \<Rightarrow> 'p \<Rightarrow> string \<Rightarrow> (exception + bool) \<times> 'p filesystem" where
  "refactor_ssh_cloud_script fs filepath server_ip_var =
     (case read_text fs filepath of
        Inl e \<Rightarrow> (Inl e, fs)
      | Inr content \<Rightarrow> commit fs filepath (refactor_ssh_cloud_text server_ip_var content))"

definition refactor_sprite_script ::
  "'p filesystem \<Rightarrow> 'p \<Rightarrow> (exception + bool) \<times> 'p filesystem" where
  "refactor_sprite_script fs filepath =
     (case read_text fs filepath of
        Inl e \<Rightarrow> (Inl e, fs)
      | Inr content \<Rightarrow> commit fs filepath (refactor_sprite_text content))"

subsection \<open>The batch drivers\<close>

text \<open>
  A script is named by its directory and its file name. \<open>listing dir\<close> is what
  \<^verbatim>\<open>dir.glob('*.sh')\<close> yields, and \<open>None\<close> when the directory does not exist. The loops
  count the scripts tried and the scripts refactored; an exception ends the run, and the
  interpreter then exits with status 1.
\<close>

type_synonym script = "string \<times> string"

definition cloud_configs :: "(string \<times> string) list" where
  "cloud_configs = [(''digitalocean'', ''DO_SERVER_IP''), (''hetzner'', ''HETZNER_SERVER_IP''),
     (''linode'', ''LINODE_SERVER_IP''), (''vultr'', ''VULTR_SERVER_IP'')]"

definition scripts_of :: "(string \<Rightarrow> string list option) \<Rightarrow> string \<Rightarrow> script list" where
  "scripts_of listing dir =
     (case listing dir of
        None \<Rightarrow> []
      | Some names \<Rightarrow> map (\<lambda>name. (dir, name)) (filter (\<lambda>name. \<not> startswith name ''lib'') names))"

definition candidates :: "(string \<Rightarrow> string list option) \<Rightarrow> (script \<times> string) list" where
  "candidates listing =
     concat (map (\<lambda>(cloud, ip_var). map (\<lambda>script. (script, ip_var)) (scripts_of listing cloud))
               cloud_configs)"

text \<open>
  The loop of \<^verbatim>\<open>main\<close>, which is the same text in both scripts but for the function it
  calls on a candidate.
\<close>

fun run_batch ::
  "('p filesystem \<Rightarrow> 'c \<Rightarrow> (exception + bool) \<times> 'p filesystem) \<Rightarrow> 'p filesystem \<Rightarrow> 'c list
     \<Rightarrow> nat \<Rightarrow> nat \<Rightarrow> (exception + nat \<times> nat) \<times> 'p filesystem" where
  "run_batch refactor fs [] n_total n_success = (Inr (n_total, n_success), fs)"
| "run_batch refactor fs (c # more) n_total n_success =
     (case refactor fs c of
        (Inl e, fs') \<Rightarrow> (Inl e, fs')
      | (Inr ok, fs') \<Rightarrow>
          run_batch refactor fs' more (n_total + 1) (if ok then n_success + 1 else n_success))"

definition exit_status :: "exception + nat \<times> nat \<Rightarrow> nat" where
  "exit_status r =
     (case r of Inl e \<Rightarrow> 1 | Inr (n_total, n_success) \<Rightarrow> if n_success = n_total then 0 else 1)"

definition refactor_candidate ::
  "script filesystem \<Rightarrow> script \<times> string \<Rightarrow> (exception + bool) \<times> script filesystem" where
  "refactor_candidate fs c = refactor_ssh_cloud_script fs (fst c) (snd c)"

definition env_injection_main ::
  "(string \<Rightarrow> string list option) \<Rightarrow> script filesystem \<Rightarrow> nat \<times> script filesystem" where
  "env_injection_main listing fs =
     (case run_batch refactor_candidate fs (candidates listing) 0 0 of
        (r, fs') \<Rightarrow> (exit_status r, fs'))"

definition sprite_main ::
  "(string \<Rightarrow> string list option) \<Rightarrow> script filesystem \<Rightarrow> nat \<times> script filesystem" where
  "sprite_main listing fs =
     (if listing ''sprite'' = None then (1, fs)
      else (case run_batch refactor_sprite_script fs (scripts_of listing ''sprite'') 0 0 of
              (r, fs') \<Rightarrow> (exit_status r, fs')))"

subsection \<open>Names for what the properties speak of\<close>

text \<open>The lines of a heredoc body that qualify, trimmed, and the argument made of one.\<close>

definition export_lines :: "string \<Rightarrow> string list" where
  "export_lines body =
     filter (\<lambda>line. startswith line ''export '') (map strip (str_split newline body))"

definition quoted_arg :: "string \<Rightarrow> string" where
  "quoted_arg line = [dquote] @ export_var_line line @ [dquote]"

text \<open>A replacement whose only backslashes stand before a newline is a literal.\<close>

fun plain_template :: "string \<Rightarrow> bool" where
  "plain_template [] = True"
| "plain_template [c] = (c \<noteq> backslash)"
| "plain_template (c # d # ds) =
     (if c = backslash then d = newline \<and> plain_template ds else plain_template (d # ds))"

text \<open>A block of the compact shape (\<^verbatim>\<open>pattern2\<close>) around a heredoc body, and the scripts,
  directory and oracles of the examples.\<close>

definition idiom_block :: "string \<Rightarrow> string \<Rightarrow> string" where
  "idiom_block server_ip_var body =
     ''log_warn \"Setting up environment variables...\"'' @ [newline]
     @ ''ENV_TEMP=$(mktemp)'' @ [newline]
     @ ''chmod 600 \"$ENV_TEMP\"'' @ [newline]
     @ ''cat > \"$ENV_TEMP\" << EOF'' @ [newline]
     @ body
     @ ''EOF'' @ [newline]
     @ ''upload_file \"$'' @ server_ip_var @ ''\" \"$ENV_TEMP\" \"/tmp/env_config\"'' @ [newline]
     @ ''run_server \"$'' @ server_ip_var
         @ ''\" \"cat /tmp/env_config >> ~/.zshrc && rm /tmp/env_config\"'' @ [newline]
     @ ''rm \"$ENV_TEMP\"'' @ [newline]"

definition example_script :: string where
  "example_script = idiom_block ''DO_SERVER_IP''
     (''export A=1'' @ [newline] @ ''export B=\"${OPENROUTER_API_KEY}\"'' @ [newline])"

definition example_rewritten :: string where
  "example_rewritten =
     ''log_warn \"Setting up environment variables...\"'' @ [newline]
     @ ''inject_env_vars_ssh \"$DO_SERVER_IP\" upload_file run_server '' @ [backslash, newline]
     @ ''    \"A=1\" '' @ [backslash, newline]
     @ ''    \"B=$OPENROUTER_API_KEY\"'' @ [newline]"

definition two_blocks :: string where
  "two_blocks = idiom_block ''DO_SERVER_IP'' (''export A=1'' @ [newline])
     @ idiom_block ''DO_SERVER_IP'' (''export B=2'' @ [newline])"

definition call_with_A :: string where
  "call_with_A =
     ''log_warn \"Setting up environment variables...\"'' @ [newline]
     @ ''inject_env_vars_ssh \"$DO_SERVER_IP\" upload_file run_server '' @ [backslash, newline]
     @ ''    \"A=1\"'' @ [newline]"

definition plain_script :: string where
  "plain_script = ''echo hi'' @ [newline]"

definition claude_sh :: script where
  "claude_sh = (''digitalocean'', ''claude.sh'')"

definition aider_sh :: script where
  "aider_sh = (''digitalocean'', ''aider.sh'')"

definition example_listing :: "string \<Rightarrow> string list option" where
  "example_listing dir =
     (if dir = ''digitalocean'' then Some [''claude.sh'', ''lib_common.sh'', ''aider.sh''] else None)"

definition example_fs :: "script filesystem" where
  "example_fs = [claude_sh \<mapsto> example_script, aider_sh \<mapsto> plain_script]"

definition unbraced_script :: string where
  "unbraced_script = ''echo $FOO'' @ [newline]"

definition braced_script :: string where
  "braced_script = ''echo ${FOO}'' @ [newline]"

definition accepting_oracle :: syntax_check where
  "accepting_oracle script_text = Inr 0"

definition no_exports_script :: string where
  "no_exports_script = idiom_block ''DO_SERVER_IP'' (''# none'' @ [newline])"

section \<open>Properties\<close>

subsection \<open>The reference scanner\<close>

lemma startswith_prefix: "startswith s p = prefix p s"
  by (induction s p rule: startswith.induct) auto

lemma ident_char_not_dollar: "ident_char c \<Longrightarrow> c \<noteq> dollar"
  by (auto simp: ident_char_def dollar_def Let_def)

lemma ident_start_props:
  "ident_start c \<Longrightarrow> c \<noteq> dollar \<and> c \<noteq> lbrace \<and> c \<notin> set special_chars \<and> ident_char c"
  by (auto simp: ident_start_def ident_char_def dollar_def lbrace_def special_chars_def Let_def)

lemma match_identifier_Some:
  "match_identifier cs = Some v \<Longrightarrow>
     v \<noteq> [] \<and> ident_start (hd v) \<and> (\<forall>c \<in> set v. ident_char c) \<and> cs = v @ drop (length v) cs
     \<and> drop (length v) cs = dropWhile ident_char (tl cs)"
  by (cases cs) (auto simp: match_identifier_def ident_start_props dropWhile_eq_drop [symmetric]
       split: if_splits dest: set_takeWhileD)

lemma match_identifier_None:
  "match_identifier (c # cs) = None \<longleftrightarrow> \<not> ident_start c"
  by (simp add: match_identifier_def)

lemma not_skip_identifier: "match_identifier cs = Some v \<Longrightarrow> \<not> should_skip_variable v"
  by (cases cs) (auto simp: match_identifier_def should_skip_variable_def special_vars_def ident_start_def Let_def split: if_splits)

lemma loop_no_dollar:
  "dollar \<notin> set xs \<Longrightarrow> add_braces_loop (xs @ ys) = xs @ add_braces_loop ys"
  by (induction xs) auto

lemma loop_hd: "add_braces_loop (c # cs) = c # tl (add_braces_loop (c # cs))"
  by (simp add: dollar_def split: option.splits)

lemma loop_step_plain: "c \<noteq> dollar \<Longrightarrow> add_braces_loop (c # cs) = c # add_braces_loop cs"
  by simp

lemma loop_step_last: "add_braces_loop [dollar] = [dollar]"
  by simp

lemma loop_step_brace: "add_braces_loop (dollar # lbrace # ds) = dollar # lbrace # add_braces_loop ds"
  by simp

lemma loop_step_special:
  "d \<in> set special_chars \<Longrightarrow> add_braces_loop (dollar # d # ds) = dollar # d # add_braces_loop ds"
  by simp

lemma loop_step_ident:
  "ident_start d \<Longrightarrow> add_braces_loop (dollar # d # ds)
     = [dollar, lbrace] @ (d # takeWhile ident_char ds) @ [rbrace] @ add_braces_loop (dropWhile ident_char ds)"
  using not_skip_identifier [of "d # ds"] ident_start_props [of d]
  by (simp add: match_identifier_def dropWhile_eq_drop [symmetric])

lemma loop_step_other:
  "d \<noteq> lbrace \<Longrightarrow> d \<notin> set special_chars \<Longrightarrow> \<not> ident_start d \<Longrightarrow>
     add_braces_loop (dollar # d # ds) = dollar # add_braces_loop (d # ds)"
  by (simp add: match_identifier_def)

lemma loop_cases [case_names Nil Plain Last Brace Special Ident Other]:
  assumes "l = [] \<Longrightarrow> P"
    and "\<And>c cs. l = c # cs \<Longrightarrow> c \<noteq> dollar \<Longrightarrow> P"
    and "l = [dollar] \<Longrightarrow> P"
    and "\<And>ds. l = dollar # lbrace # ds \<Longrightarrow> P"
    and "\<And>d ds. l = dollar # d # ds \<Longrightarrow> d \<in> set special_chars \<Longrightarrow> P"
    and "\<And>d ds. l = dollar # d # ds \<Longrightarrow> ident_start d \<Longrightarrow> P"
    and "\<And>d ds. l = dollar # d # ds \<Longrightarrow> d \<noteq> lbrace \<Longrightarrow> d \<notin> set special_chars
           \<Longrightarrow> \<not> ident_start d \<Longrightarrow> P"
  shows P
proof (cases l)
  case Nil
  then show ?thesis using assms(1) by simp
next
  case (Cons c cs)
  show ?thesis
  proof (cases "c = dollar")
    case False
    then show ?thesis using assms(2) Cons by simp
  next
    case True
    show ?thesis
    proof (cases cs)
      case Nil
      then show ?thesis using assms(3) Cons True by simp
    next
      case (Cons d ds)
      then have l: "l = dollar # d # ds" using \<open>l = c # cs\<close> True by simp
      show ?thesis
        using assms(4) [of ds] assms(5) [of d ds] assms(6) [of d ds] assms(7) [of d ds] l
        by blast
    qed
  qed
qed

lemma loop_idem: "add_braces_loop (add_braces_loop l) = add_braces_loop l"
proof (induction "length l" arbitrary: l rule: less_induct)
  case less
  show ?case
  proof (cases l rule: loop_cases)
    case Nil
    then show ?thesis by simp
  next
    case (Plain c cs)
    then show ?thesis using less [of cs] by (simp only: loop_step_plain) simp
  next
    case Last
    then show ?thesis by (simp only: loop_step_last)
  next
    case (Brace ds)
    then show ?thesis using less [of ds] by (simp only: loop_step_brace) simp
  next
    case (Special d ds)
    then show ?thesis using less [of ds] by (simp only: loop_step_special) simp
  next
    case (Ident d ds)
    let ?v = "d # takeWhile ident_char ds" and ?r = "dropWhile ident_char ds"
    have nd: "dollar \<notin> set (?v @ [rbrace])"
      using ident_start_props [OF Ident(2)] ident_char_not_dollar
      by (auto simp: rbrace_def dollar_def dest: set_takeWhileD)
    have len: "length ?r < length l" using Ident(1) length_dropWhile_le [of ident_char ds] by simp
    have "add_braces_loop (add_braces_loop l)
        = add_braces_loop (dollar # lbrace # (?v @ [rbrace]) @ add_braces_loop ?r)"
      using Ident by (simp only: loop_step_ident) simp
    also have "\<dots> = dollar # lbrace # (?v @ [rbrace]) @ add_braces_loop (add_braces_loop ?r)"
      by (simp only: loop_step_brace loop_no_dollar [OF nd])
    also have "\<dots> = add_braces_loop l"
      using less [OF len] Ident by (simp only: loop_step_ident) simp
    finally show ?thesis .
  next
    case (Other d ds)
    then have dd: "d \<noteq> dollar" by (auto simp: special_chars_def dollar_def)
    have ih: "add_braces_loop (add_braces_loop ds) = add_braces_loop ds"
      using less [of ds] Other(1) by simp
    have "add_braces_loop l = dollar # d # add_braces_loop ds"
      using Other dd by (simp add: loop_step_other loop_step_plain del: add_braces_loop.simps)
    moreover have "add_braces_loop (dollar # d # add_braces_loop ds) = dollar # d # add_braces_loop (add_braces_loop ds)"
      using Other dd by (simp add: loop_step_other loop_step_plain del: add_braces_loop.simps)
    ultimately show ?thesis using ih by simp
  qed
qed

lemma lstrip_loop:
  "\<not> startswith (lstrip l) ''#'' \<Longrightarrow> \<not> startswith (lstrip (add_braces_loop l)) ''#''"
proof (induction l)
  case Nil
  then show ?case by simp
next
  case (Cons c cs)
  show ?case
  proof (cases "is_space c")
    case True
    then have "c \<noteq> dollar" by (auto simp: is_space_def dollar_def Let_def)
    then show ?thesis using Cons True by (simp add: lstrip_def)
  next
    case False
    then have "lstrip (c # cs) = c # cs" by (simp add: lstrip_def)
    then have ch: "c \<noteq> CHR ''#''" using Cons.prems by (auto simp: startswith_prefix)
    obtain t where t: "add_braces_loop (c # cs) = c # t" using loop_hd [of c cs] by blast
    then have "lstrip (add_braces_loop (c # cs)) = c # t"
      using False by (simp add: lstrip_def)
    then show ?thesis using ch by (simp add: startswith_prefix)
  qed
qed


lemma sublist_skip:
  "x \<notin> set ys \<Longrightarrow> sublist (x # xs) (ys @ zs) \<Longrightarrow> sublist (x # xs) zs"
  by (induction ys) (auto simp: sublist_Cons_right prefix_Cons)

lemma special_not_others:
  "d \<in> set special_chars \<Longrightarrow> d \<noteq> lbrace \<and> \<not> ident_start d"
  by (auto simp: special_chars_def lbrace_def ident_start_def Let_def)

lemma loop_keeps_special:
  assumes d: "d \<in> set special_chars"
  shows "sublist [dollar, d] l \<Longrightarrow> sublist [dollar, d] (add_braces_loop l)"
proof (induction "length l" arbitrary: l rule: less_induct)
  case less
  note sub = less.prems
  show ?case
  proof (cases l rule: loop_cases)
    case Nil
    then show ?thesis using sub by simp
  next
    case (Plain c cs)
    then have "sublist [dollar, d] cs" using sub by (auto simp: sublist_Cons_right prefix_Cons)
    then have "sublist [dollar, d] (add_braces_loop cs)" using less.hyps [of cs] Plain by simp
    then show ?thesis using Plain
      by (simp add: loop_step_plain sublist_Cons_right del: add_braces_loop.simps)
  next
    case Last
    then show ?thesis using sub by (auto simp: sublist_Cons_right prefix_Cons)
  next
    case (Brace ds)
    then have "sublist [dollar, d] ds"
      using sub special_not_others [OF d]
      by (auto simp: sublist_Cons_right prefix_Cons lbrace_def dollar_def)
    then have "sublist [dollar, d] (add_braces_loop ds)" using less.hyps [of ds] Brace by simp
    then show ?thesis using Brace
      by (simp add: loop_step_brace sublist_Cons_right del: add_braces_loop.simps)
  next
    case (Special e ds)
    have out: "add_braces_loop l = dollar # e # add_braces_loop ds"
      using Special by (simp add: loop_step_special del: add_braces_loop.simps)
    consider (here) "e = d" | (pair) ds' where "e = dollar" "ds = d # ds'" | (later) "sublist [dollar, d] ds"
      using sub Special(1) by (cases ds) (auto simp: sublist_Cons_right prefix_Cons)
    then show ?thesis
    proof cases
      case here
      then show ?thesis using out by (simp add: sublist_Cons_right)
    next
      case pair
      obtain t where "add_braces_loop (d # ds') = d # t" using loop_hd [of d ds'] by blast
      then show ?thesis using out pair by (simp add: sublist_Cons_right)
    next
      case later
      then have "sublist [dollar, d] (add_braces_loop ds)" using less.hyps [of ds] Special by simp
      then show ?thesis using out by (simp add: sublist_Cons_right)
    qed
  next
    case (Ident e ds)
    let ?v = "e # takeWhile ident_char ds" and ?r = "dropWhile ident_char ds"
    have nd: "dollar \<notin> set ?v"
      using ident_start_props [OF Ident(2)] ident_char_not_dollar by (auto dest: set_takeWhileD)
    have "e \<noteq> d" using Ident(2) special_not_others [OF d] by auto
    then have "sublist [dollar, d] (?v @ ?r)"
      using sub Ident(1) by (auto simp: sublist_Cons_right prefix_Cons)
    then have "sublist [dollar, d] ?r" using sublist_skip [OF nd] by blast
    moreover have "length ?r < length l" using Ident(1) length_dropWhile_le [of ident_char ds] by simp
    ultimately have "sublist [dollar, d] (add_braces_loop ?r)" using less.hyps by blast
    then have "sublist [dollar, d] (([dollar, lbrace] @ ?v @ [rbrace]) @ add_braces_loop ?r)"
      by (metis sublist_append)
    then show ?thesis using Ident by (simp add: loop_step_ident del: add_braces_loop.simps)
  next
    case (Other e ds)
    then have ed: "e \<noteq> dollar" by (auto simp: special_chars_def dollar_def)
    have out: "add_braces_loop l = dollar # e # add_braces_loop ds"
      using Other ed by (simp add: loop_step_other loop_step_plain del: add_braces_loop.simps)
    have "e \<noteq> d" using Other d by auto
    then have "sublist [dollar, d] ds"
      using sub Other(1) ed by (auto simp: sublist_Cons_right prefix_Cons)
    then have "sublist [dollar, d] (add_braces_loop ds)" using less.hyps [of ds] Other by simp
    then show ?thesis using out by (simp add: sublist_Cons_right)
  qed
qed


lemma classify_lossless: "concat (map source_text (spec_classify l)) = l"
  by (induction l rule: spec_classify.induct) (auto split: list.splits)

lemma loop_refines_spec: "add_braces_loop l = spec_scan l"
proof (induction "length l" arbitrary: l rule: less_induct)
  case less
  show ?case
  proof (cases l rule: loop_cases)
    case Nil
    then show ?thesis by (simp add: spec_scan_def)
  next
    case (Plain c cs)
    then show ?thesis using less [of cs] by (simp add: spec_scan_def)
  next
    case Last
    then show ?thesis by (simp add: spec_scan_def)
  next
    case (Brace ds)
    then show ?thesis using less [of ds]
      by (simp add: spec_scan_def loop_step_brace del: add_braces_loop.simps)
  next
    case (Special d ds)
    then show ?thesis using less [of ds] special_not_others [of d]
      by (simp add: spec_scan_def loop_step_special del: add_braces_loop.simps)
  next
    case (Ident d ds)
    have "length (dropWhile ident_char ds) < length l"
      using Ident(1) length_dropWhile_le [of ident_char ds] by simp
    then show ?thesis using Ident less [of "dropWhile ident_char ds"] ident_start_props [of d]
      by (simp add: spec_scan_def loop_step_ident del: add_braces_loop.simps)
  next
    case (Other d ds)
    then have dd: "d \<noteq> dollar" by (auto simp: special_chars_def dollar_def)
    then show ?thesis using Other less [of ds]
      by (simp add: spec_scan_def loop_step_other loop_step_plain del: add_braces_loop.simps)
  qed
qed


text \<open>
  Claim C2. The scanner is idempotent: applying \<open>add_braces_to_line\<close> to its own output
  gives that output again, for every line.
\<close>

theorem add_braces_idempotent:
  "add_braces_to_line (add_braces_to_line l) = add_braces_to_line l"
  by (simp add: add_braces_to_line_def lstrip_loop loop_idem)

text \<open>
  Claim C8. When the scanner stands at the sigil followed by one of \<^verbatim>\<open>@*!?$-#\<close> or a
  digit, it copies the two characters and goes on behind them, in the loop and in a line
  that starts so; and wherever such a pair occurs in a line, the pair occurs in the line
  the scanner returns.
\<close>

theorem special_sigil_copied_verbatim:
  assumes "d \<in> set special_chars"
  shows "add_braces_loop (dollar # d # more) = dollar # d # add_braces_loop more
       \<and> add_braces_to_line (dollar # d # more) = dollar # d # add_braces_loop more
       \<and> (sublist [dollar, d] line \<longrightarrow> sublist [dollar, d] (add_braces_to_line line))"
proof -
  have "\<not> startswith (lstrip (dollar # d # more)) ''#''"
    by (simp add: lstrip_def is_space_def dollar_def)
  then show ?thesis
    using assms loop_keeps_special [OF assms, of line]
    by (simp add: add_braces_to_line_def loop_step_special del: add_braces_loop.simps)
qed

theorem special_sigil_copied_verbatim_witness:
  "CHR ''1'' \<in> set special_chars
   \<and> add_braces_to_line (dollar # CHR ''1'' # ''FOO $BAR'') = ''$1FOO ${BAR}''
   \<and> sublist [dollar, CHR ''1''] ''echo $FOO and $1''
   \<and> sublist [dollar, CHR ''1''] (add_braces_to_line ''echo $FOO and $1'')"
proof -
  have h: "CHR ''1'' \<in> set special_chars" by (simp add: special_chars_def)
  have s: "sublist [dollar, CHR ''1''] ''echo $FOO and $1''"
    by (simp add: dollar_def sublist_Cons_right)
  have e: "add_braces_loop ''FOO $BAR'' = ''FOO ${BAR}''" by code_simp
  show ?thesis
    using special_sigil_copied_verbatim [OF h, of "''FOO $BAR''" "''echo $FOO and $1''"] h s e
    by (simp add: dollar_def lbrace_def rbrace_def)
qed

text \<open>
  Claim C9, as amended. A line whose first character after leading whitespace is \<^verbatim>\<open>#\<close>
  is returned as it is. Every other line is returned as the classification of section 4.1
  prescribes: the line is the concatenation of its tokens, the result is the concatenation
  of what is emitted for them, and only an identifier reference is emitted in another form
  than it was read, namely bracketed. Scenario A holds.
\<close>

theorem scanner_contract:
  "(if is_comment_line line then add_braces_to_line line = line
    else add_braces_to_line line = concat (map spec_emit (spec_classify line)))
   \<and> concat (map source_text (spec_classify line)) = line
   \<and> (\<forall>t. spec_emit t \<noteq> source_text t \<longrightarrow> (\<exists>name. t = Identifier_Ref name))
   \<and> add_braces_to_line ''echo $FOO and $1 and ${BAR}'' = ''echo ${FOO} and $1 and ${BAR}''"
proof -
  have "add_braces_to_line ''echo $FOO and $1 and ${BAR}'' = ''echo ${FOO} and $1 and ${BAR}''"
    by code_simp
  moreover have "\<forall>t. spec_emit t \<noteq> source_text t \<longrightarrow> (\<exists>name. t = Identifier_Ref name)"
  proof (intro allI impI)
    fix t assume "spec_emit t \<noteq> source_text t"
    then show "\<exists>name. t = Identifier_Ref name" by (cases t) auto
  qed
  ultimately show ?thesis
    using loop_refines_spec [of line] classify_lossless [of line]
    by (simp add: add_braces_to_line_def is_comment_line_def spec_scan_def)
qed

theorem scanner_contract_witness:
  "\<not> is_comment_line ''ls $HOME''
   \<and> add_braces_to_line ''ls $HOME'' = ''ls ${HOME}''
   \<and> spec_classify ''ls $HOME'' = map Literal_Char ''ls '' @ [Identifier_Ref ''HOME'']
   \<and> spec_emit (Identifier_Ref ''HOME'') \<noteq> source_text (Identifier_Ref ''HOME'')
   \<and> is_comment_line ''  # ls $HOME''
   \<and> add_braces_to_line ''  # ls $HOME'' = ''  # ls $HOME''"
proof -
  have a: "\<not> is_comment_line ''ls $HOME''" by code_simp
  have b: "is_comment_line ''  # ls $HOME''" by code_simp
  have c: "spec_classify ''ls $HOME'' = map Literal_Char ''ls '' @ [Identifier_Ref ''HOME'']"
    by code_simp
  have d: "concat (map spec_emit (map Literal_Char ''ls '' @ [Identifier_Ref ''HOME''])) = ''ls ${HOME}''"
    by code_simp
  have e: "spec_emit (Identifier_Ref ''HOME'') \<noteq> source_text (Identifier_Ref ''HOME'')"
    by (simp add: dollar_def lbrace_def)
  have "if is_comment_line ''ls $HOME'' then add_braces_to_line ''ls $HOME'' = ''ls $HOME''
        else add_braces_to_line ''ls $HOME'' = concat (map spec_emit (spec_classify ''ls $HOME''))"
    using scanner_contract [of "''ls $HOME''"] by (rule conjunct1)
  then have f: "add_braces_to_line ''ls $HOME'' = ''ls ${HOME}''"
    using a c d by (simp only: if_False)
  have "if is_comment_line ''  # ls $HOME'' then add_braces_to_line ''  # ls $HOME'' = ''  # ls $HOME''
        else add_braces_to_line ''  # ls $HOME''
               = concat (map spec_emit (spec_classify ''  # ls $HOME''))"
    using scanner_contract [of "''  # ls $HOME''"] by (rule conjunct1)
  then have g: "add_braces_to_line ''  # ls $HOME'' = ''  # ls $HOME''"
    using b by (simp only: if_True)
  show ?thesis using a b c e f g by (intro conjI)
qed

text \<open>
  The claim as it was stated fails on a comment line: \<^verbatim>\<open>$FOO\<close> is an identifier reference
  of the line, yet the line comes back unchanged.
\<close>

theorem scanner_contract_counterexample:
  "add_braces_to_line ''# echo $FOO'' = ''# echo $FOO''
   \<and> spec_classify ''# echo $FOO'' = map Literal_Char ''# echo '' @ [Identifier_Ref ''FOO'']
   \<and> add_braces_to_line ''# echo $FOO'' \<noteq> spec_scan ''# echo $FOO''"
  by code_simp

subsection \<open>Extraction of the export lines\<close>

lemma startswith_set: "startswith s p \<Longrightarrow> set p \<subseteq> set s"
  by (induction s p rule: startswith.induct) (auto split: if_splits)

lemma startswith_hd: "startswith (c # cs) (p # ps) \<Longrightarrow> c = p"
  by (simp split: if_splits)

lemma str_replace_step:
  "old \<noteq> [] \<Longrightarrow> \<not> startswith (c # cs) old \<Longrightarrow>
     str_replace old new (c # cs) = c # str_replace old new cs"
  by (simp add: str_replace.simps [of old new "c # cs"])

lemma str_replace_hit:
  "old \<noteq> [] \<Longrightarrow> startswith (c # cs) old \<Longrightarrow>
     str_replace old new (c # cs) = new @ str_replace old new (drop (length old) (c # cs))"
  by (simp add: str_replace.simps [of old new "c # cs"])

lemma str_replace_Nil: "old \<noteq> [] \<Longrightarrow> str_replace old new [] = []"
  by (simp add: str_replace.simps [of old new "[]"])

lemma str_replace_skip:
  assumes "old \<noteq> []" and "hd old \<notin> set k"
  shows "str_replace old new (k @ s) = k @ str_replace old new s"
  using assms(2)
proof (induction k)
  case Nil
  then show ?case by simp
next
  case (Cons c k)
  obtain p ps where old: "old = p # ps" using assms(1) by (cases old) auto
  have "c \<noteq> p" using Cons.prems old by auto
  then have "\<not> startswith (c # k @ s) old" unfolding old by simp
  then have "str_replace old new (c # k @ s) = c # str_replace old new (k @ s)"
    using assms(1) by (rule str_replace_step [rotated])
  moreover have "str_replace old new (k @ s) = k @ str_replace old new s"
    using Cons by simp
  ultimately show ?case by simp
qed

lemma str_replace_absent:
  assumes "old \<noteq> []" and "x \<in> set old" and "x \<notin> set s"
  shows "str_replace old new s = s"
  using assms(3)
proof (induction s)
  case Nil
  then show ?case using assms(1) by (simp add: str_replace_Nil)
next
  case (Cons c cs)
  have "\<not> startswith (c # cs) old" using startswith_set [of "c # cs" old] assms(2) Cons.prems by auto
  then have "str_replace old new (c # cs) = c # str_replace old new cs"
    using assms(1) by (rule str_replace_step [rotated])
  then show ?case using Cons by simp
qed

lemma strip_id: "s \<noteq> [] \<Longrightarrow> \<not> is_space (hd s) \<Longrightarrow> \<not> is_space (last s) \<Longrightarrow> strip s = s"
proof -
  assume a: "s \<noteq> []" "\<not> is_space (hd s)" "\<not> is_space (last s)"
  have 1: "dropWhile is_space s = s" using a by (simp add: dropWhile_eq_self_iff)
  have 2: "dropWhile is_space (rev s) = rev s" using a by (simp add: dropWhile_eq_self_iff hd_rev)
  show ?thesis unfolding strip_def 1 2 by simp
qed

lemma str_split_single: "sep \<notin> set s \<Longrightarrow> str_split sep s = [s]"
proof -
  assume "sep \<notin> set s"
  then have d: "dropWhile (\<lambda>c. c \<noteq> sep) s = []" by auto
  show ?thesis unfolding str_split.simps [of sep s] d by simp
qed

lemma extract_loop_map:
  "extract_loop acc ls =
     acc @ map (\<lambda>line. [dquote] @ export_var_line line @ [dquote])
             (filter (\<lambda>line. startswith line ''export '') (map strip ls))"
  by (induction ls arbitrary: acc) (simp_all add: Let_def)

lemma canonical_refs_skip:
  assumes "\<forall>c \<in> set k. c \<noteq> dollar \<and> c \<noteq> dquote"
  shows "canonical_refs (k @ f) = k @ canonical_refs f"
proof -
  have d: "CHR ''$'' \<notin> set k" and q: "CHR 0x22 \<notin> set k"
    using assms by (auto simp: dollar_def dquote_def)
  show ?thesis
    unfolding canonical_refs_def
    by (simp add: str_replace_skip d q)
qed

lemma export_var_line_keyed:
  assumes "\<forall>c \<in> set k. c \<noteq> dollar \<and> c \<noteq> dquote \<and> c \<noteq> CHR '' ''"
    and "CHR '' '' \<notin> set f"
  shows "export_var_line (''export '' @ k @ f) = k @ canonical_refs f"
proof -
  have sp: "CHR '' '' \<notin> set (k @ f)" using assms by auto
  have "str_replace ''export '' [] (''export '' @ k @ f) = [] @ str_replace ''export '' [] (k @ f)"
    using str_replace_hit [of "''export ''" "CHR ''e''" "''xport '' @ k @ f" "[]"] by simp
  also have "\<dots> = k @ f"
    using str_replace_absent [of "''export ''" "CHR '' ''" "k @ f" "[]"] sp by simp
  finally have "export_var_line (''export '' @ k @ f) = canonical_refs (k @ f)"
    by (simp add: export_var_line_def)
  then show ?thesis using canonical_refs_skip [of k f] assms(1) by simp
qed

lemma extract_exports_keyed:
  assumes k: "\<forall>c \<in> set k. c \<noteq> dollar \<and> c \<noteq> dquote \<and> c \<noteq> CHR '' '' \<and> c \<noteq> newline"
    and f: "f \<noteq> []" "CHR '' '' \<notin> set f" "newline \<notin> set f" "\<not> is_space (last f)"
  shows "extract_exports (''export '' @ k @ f) = [[dquote] @ k @ canonical_refs f @ [dquote]]"
proof -
  let ?line = "''export '' @ k @ f"
  have nl: "newline \<notin> set ?line" using k f by (auto simp: newline_def)
  have st: "strip ?line = ?line"
    using f by (intro strip_id) (auto simp: is_space_def)
  have sw: "startswith ?line ''export ''" by simp
  have ev: "export_var_line ?line = k @ canonical_refs f"
    using export_var_line_keyed [of k f] k f by simp
  show ?thesis
    unfolding extract_exports_def str_split_single [OF nl] extract_loop_map
    using st sw ev by simp
qed

lemma canonical_forms:
  "canonical_refs ''\"${OPENROUTER_API_KEY}\"'' = ''$OPENROUTER_API_KEY''"
  "canonical_refs ''${OPENROUTER_API_KEY}'' = ''$OPENROUTER_API_KEY''"
  "canonical_refs ''$OPENROUTER_API_KEY'' = ''$OPENROUTER_API_KEY''"
  "canonical_refs ''${MODEL_ID}'' = ''$MODEL_ID''"
  "canonical_refs ''$MODEL_ID'' = ''$MODEL_ID''"
  "canonical_refs ''\"${MODEL_ID}\"'' = ''\"$MODEL_ID\"''"
  by code_simp+

text \<open>
  Claim C5. The keyword is removed with \<^verbatim>\<open>replace\<close>, which removes every occurrence: a
  value that contains \<^verbatim>\<open>export \<close> loses it too. The line
  \<^verbatim>\<open>export MSG="do not export this"\<close> yields the argument \<^verbatim>\<open>"MSG="do not this""\<close>.
\<close>

theorem export_keyword_removed_everywhere:
  "extract_exports ''export MSG=\"do not export this\"'' = [''\"MSG=\"do not this\"\"'']"
  by code_simp

text \<open>
  Claim C6, as amended. For a key text without sigil, double quote, space and newline,
  the double-quoted bracketed, the bracketed and the bare reference to
  \<^verbatim>\<open>OPENROUTER_API_KEY\<close> extract to the same argument, and so do the bracketed and the
  bare reference to \<^verbatim>\<open>MODEL_ID\<close>; the double-quoted bracketed reference to \<^verbatim>\<open>MODEL_ID\<close>
  loses its braces and keeps its quotes.
\<close>

theorem reference_forms_canonicalised:
  assumes "\<forall>c \<in> set k. c \<noteq> dollar \<and> c \<noteq> dquote \<and> c \<noteq> CHR '' '' \<and> c \<noteq> newline"
  shows "extract_exports (''export '' @ k @ ''\"${OPENROUTER_API_KEY}\"'')
           = [[dquote] @ k @ ''$OPENROUTER_API_KEY'' @ [dquote]]
       \<and> extract_exports (''export '' @ k @ ''${OPENROUTER_API_KEY}'')
           = [[dquote] @ k @ ''$OPENROUTER_API_KEY'' @ [dquote]]
       \<and> extract_exports (''export '' @ k @ ''$OPENROUTER_API_KEY'')
           = [[dquote] @ k @ ''$OPENROUTER_API_KEY'' @ [dquote]]
       \<and> extract_exports (''export '' @ k @ ''${MODEL_ID}'')
           = [[dquote] @ k @ ''$MODEL_ID'' @ [dquote]]
       \<and> extract_exports (''export '' @ k @ ''$MODEL_ID'')
           = [[dquote] @ k @ ''$MODEL_ID'' @ [dquote]]
       \<and> extract_exports (''export '' @ k @ ''\"${MODEL_ID}\"'')
           = [[dquote] @ k @ ''\"$MODEL_ID\"'' @ [dquote]]"
proof -
  have sp: "\<not> is_space (CHR 0x22)" "\<not> is_space (CHR ''}'')" "\<not> is_space (CHR ''Y'')" "\<not> is_space (CHR ''D'')"
    by (simp_all add: is_space_def)
  show ?thesis
    using extract_exports_keyed [OF assms, of "''\"${OPENROUTER_API_KEY}\"''"]
      extract_exports_keyed [OF assms, of "''${OPENROUTER_API_KEY}''"]
      extract_exports_keyed [OF assms, of "''$OPENROUTER_API_KEY''"]
      extract_exports_keyed [OF assms, of "''${MODEL_ID}''"]
      extract_exports_keyed [OF assms, of "''$MODEL_ID''"]
      extract_exports_keyed [OF assms, of "''\"${MODEL_ID}\"''"]
    by (simp add: canonical_forms sp newline_def)
qed

theorem reference_forms_canonicalised_witness:
  "extract_exports ''export TOKEN=\"${OPENROUTER_API_KEY}\"'' = [''\"TOKEN=$OPENROUTER_API_KEY\"'']
   \<and> extract_exports ''export TOKEN=${OPENROUTER_API_KEY}'' = [''\"TOKEN=$OPENROUTER_API_KEY\"'']
   \<and> extract_exports ''export TOKEN=$OPENROUTER_API_KEY'' = [''\"TOKEN=$OPENROUTER_API_KEY\"'']
   \<and> extract_exports ''export TOKEN=${MODEL_ID}'' = [''\"TOKEN=$MODEL_ID\"'']
   \<and> extract_exports ''export TOKEN=$MODEL_ID'' = [''\"TOKEN=$MODEL_ID\"'']"
proof -
  have h: "\<forall>c \<in> set ''TOKEN=''. c \<noteq> dollar \<and> c \<noteq> dquote \<and> c \<noteq> CHR '' '' \<and> c \<noteq> newline"
    by (simp add: dollar_def dquote_def newline_def)
  show ?thesis
    using reference_forms_canonicalised [OF h] by (simp add: dquote_def)
qed

text \<open>
  The claim as it was stated fails for \<^verbatim>\<open>MODEL_ID\<close>: the double-quoted bracketed form and
  the bare form extract to different arguments.
\<close>

theorem quoted_model_id_keeps_quotes:
  "extract_exports ''export M=\"${MODEL_ID}\"'' = [''\"M=\"$MODEL_ID\"\"'']
   \<and> extract_exports ''export M=${MODEL_ID}'' = [''\"M=$MODEL_ID\"'']
   \<and> extract_exports ''export M=$MODEL_ID'' = [''\"M=$MODEL_ID\"'']
   \<and> extract_exports ''export M=\"${MODEL_ID}\"'' \<noteq> extract_exports ''export M=$MODEL_ID''"
  by code_simp


subsection \<open>Files and the scanner's pipeline\<close>

lemma concat_keep_ends: "concat (keep_ends s) = s"
proof (induction s rule: keep_ends.induct)
  case (1 s)
  show ?case
  proof (cases "s = []")
    case True
    have "keep_ends [] = []" by (simp add: keep_ends.simps [of "[]"])
    then show ?thesis using True by simp
  next
    case ne: False
    show ?thesis
    proof (cases "dropWhile (\<lambda>c. c \<noteq> newline) s")
      case Nil
      show ?thesis unfolding keep_ends.simps [of s] Nil using ne by simp
    next
      case (Cons x after)
      then have x: "x = newline" using hd_dropWhile [of "\<lambda>c. c \<noteq> newline" s] by force
      have "s = takeWhile (\<lambda>c. c \<noteq> newline) s @ dropWhile (\<lambda>c. c \<noteq> newline) s" by simp
      then have s: "s = takeWhile (\<lambda>c. c \<noteq> newline) s @ newline # after" using Cons x by simp
      have "concat (keep_ends s) = (takeWhile (\<lambda>c. c \<noteq> newline) s @ [newline]) @ concat (keep_ends after)"
        unfolding keep_ends.simps [of s] Cons using ne by simp
      also have "\<dots> = (takeWhile (\<lambda>c. c \<noteq> newline) s @ [newline]) @ after"
        using 1 [OF ne Cons] by simp
      also have "\<dots> = s" using s by simp
      finally show ?thesis .
    qed
  qed
qed

lemma universal_newlines_id: "carriage_return \<notin> set s \<Longrightarrow> universal_newlines s = s"
  by (induction s rule: universal_newlines.induct) auto

lemma universal_newlines_no_cr: "carriage_return \<notin> set (universal_newlines s)"
  by (induction s rule: universal_newlines.induct) (auto simp: carriage_return_def newline_def)

lemma universal_newlines_idem: "universal_newlines (universal_newlines s) = universal_newlines s"
  by (simp add: universal_newlines_id universal_newlines_no_cr)

lemma concat_readlines: "concat (readlines raw) = universal_newlines raw"
  by (simp add: readlines_def concat_keep_ends)

lemma fix_file_cases:
  assumes "fs p = Some raw"
  shows "fix_file oracle fs p =
     (if readlines raw = map add_braces_to_line (readlines raw) then (False, fs)
      else (case oracle (fixed_text raw) of
              Inl e \<Rightarrow> (False, fs(p \<mapsto> fixed_text raw))
            | Inr returncode \<Rightarrow>
                if returncode = 0 then (True, fs(p \<mapsto> fixed_text raw))
                else (False, fs(p \<mapsto> universal_newlines raw))))"
  using assms
  by (simp add: fix_file_def Let_def fixed_text_def concat_readlines split: sum.splits)

subsection \<open>The per-file refactoring\<close>

lemma commit_unchanged:
  "out = Pattern_Not_Found \<or> out = No_Env_Vars \<or> out = No_Changes \<Longrightarrow>
     commit fs p out = (Inr False, fs)"
  by (auto simp: commit_def)

lemma rewrite_match_cases:
  "rewrite_match pattern replacement m content =
     (case m_group1 m of
        None \<Rightarrow> Raised
      | Some body \<Rightarrow>
          if extract_exports body = [] then No_Env_Vars
          else (case re_sub pattern (replacement (extract_exports body)) content of
                  Inl e \<Rightarrow> Raised
                | Inr new_content \<Rightarrow>
                    if new_content = content then No_Changes else Refactored new_content))"
  by (simp add: rewrite_match_def Let_def split: option.splits)

text \<open>
  Claim C3. When no pattern matches the text read, or a pattern matches and no export line
  is extracted from the heredoc body, or the substitution gives back the text read, the
  function returns \<^verbatim>\<open>False\<close> and the file system is the one it started with.
\<close>

theorem failed_refactor_leaves_file:
  assumes "fs filepath = Some raw"
    and "content = universal_newlines raw"
    and "find_idiom ip content = (pattern, found)"
    and "found = None
       \<or> (\<exists>m body. found = Some m \<and> m_group1 m = Some body \<and> extract_exports body = [])
       \<or> (\<exists>m body. found = Some m \<and> m_group1 m = Some body
              \<and> re_sub pattern (ssh_replacement ip (extract_exports body)) content = Inr content)"
  shows "refactor_ssh_cloud_script fs filepath ip = (Inr False, fs)"
proof -
  have "refactor_ssh_cloud_text ip content = Pattern_Not_Found
      \<or> refactor_ssh_cloud_text ip content = No_Env_Vars
      \<or> refactor_ssh_cloud_text ip content = No_Changes"
  proof -
    consider (none) "found = None"
      | (empty) m body where "found = Some m" "m_group1 m = Some body" "extract_exports body = []"
      | (same) m body where "found = Some m" "m_group1 m = Some body"
          "re_sub pattern (ssh_replacement ip (extract_exports body)) content = Inr content"
      using assms(4) by blast
    then show ?thesis
    proof cases
      case none
      then show ?thesis using assms(3) by (simp add: refactor_ssh_cloud_text_def)
    next
      case empty
      then show ?thesis using assms(3) by (simp add: refactor_ssh_cloud_text_def rewrite_match_cases)
    next
      case same
      then show ?thesis using assms(3) by (simp add: refactor_ssh_cloud_text_def rewrite_match_cases)
    qed
  qed
  then show ?thesis
    using assms(1,2) commit_unchanged [of "refactor_ssh_cloud_text ip content" fs filepath]
    by (simp add: refactor_ssh_cloud_script_def read_text_def)
qed

lemma extract_exports_map: "extract_exports body = map quoted_arg (export_lines body)"
  by (simp add: extract_exports_def extract_loop_map export_lines_def quoted_arg_def)

lemma refactored_ssh_text:
  assumes "refactor_ssh_cloud_text ip content = Refactored new_content"
  shows "\<exists>pattern m body. find_idiom ip content = (pattern, Some m) \<and> m_group1 m = Some body
           \<and> extract_exports body \<noteq> []
           \<and> re_sub pattern (ssh_replacement ip (extract_exports body)) content = Inr new_content"
  using assms
  by (auto simp: refactor_ssh_cloud_text_def rewrite_match_cases
           split: prod.splits option.splits if_splits sum.splits)

lemma refactor_ssh_script_True:
  assumes "refactor_ssh_cloud_script fs filepath ip = (Inr True, fs')"
  shows "\<exists>raw new_content. fs filepath = Some raw
           \<and> refactor_ssh_cloud_text ip (universal_newlines raw) = Refactored new_content
           \<and> fs' = fs(filepath \<mapsto> new_content)"
  using assms
  by (auto simp: refactor_ssh_cloud_script_def read_text_def commit_def
           split: option.splits outcome.splits)

subsection \<open>What a successful refactoring writes\<close>

lemma sub_from_first_match:
  assumes "search_from r seen s = Some m"
    and "p = (case seen of [] \<Rightarrow> None | c # _ \<Rightarrow> Some c)"
  shows "\<exists>skipped tail. m_before m = rev seen @ skipped
           \<and> sub_from r tmpl p False s
               = skipped @ expand_template tmpl (m_group0 m) (m_group1 m) @ tail"
  using assms
proof (induction s arbitrary: seen p)
  case Nil
  then obtain st sts where st: "rx_match r (MState [] p None) = st # sts"
    and m: "m = Match (rev seen) [] (group_text st) []"
    by (auto split: list.splits)
  have "sub_from r tmpl p False []
      = expand_template tmpl (consumed [] (st_rest st)) (group_text st)
          @ (if length (st_rest st) < length ([] :: string)
             then sub_from r tmpl (st_prev st) False (st_rest st)
             else sub_from r tmpl p True [])"
    using st by (simp add: sub_from.simps [of r tmpl p False "[]"])
  then show ?case using m by (auto simp: consumed_def)
next
  case (Cons c cs)
  show ?case
  proof (cases "rx_match r (MState (c # cs) p None)")
    case Nil
    then have next_search: "search_from r (c # seen) cs = Some m"
      using Cons.prems by simp
    obtain skipped tail where sk: "m_before m = rev (c # seen) @ skipped"
      and sb: "sub_from r tmpl (Some c) False cs
               = skipped @ expand_template tmpl (m_group0 m) (m_group1 m) @ tail"
      using Cons.IH [OF next_search, of "Some c"] by auto
    have "sub_from r tmpl p False (c # cs) = c # sub_from r tmpl (Some c) False cs"
      using Nil by (simp add: sub_from.simps [of r tmpl p False "c # cs"])
    then have "sub_from r tmpl p False (c # cs)
        = (c # skipped) @ expand_template tmpl (m_group0 m) (m_group1 m) @ tail"
      using sb by simp
    moreover have "m_before m = rev seen @ (c # skipped)" using sk by simp
    ultimately show ?thesis by blast
  next
    case (Cons st sts)
    then have m: "m = Match (rev seen) (consumed (c # cs) (st_rest st)) (group_text st) (st_rest st)"
      using Cons.prems by simp
    have "sub_from r tmpl p False (c # cs)
      = expand_template tmpl (consumed (c # cs) (st_rest st)) (group_text st)
          @ (if length (st_rest st) < length (c # cs)
             then sub_from r tmpl (st_prev st) False (st_rest st)
             else sub_from r tmpl p True (c # cs))"
      using Cons by (simp add: sub_from.simps [of r tmpl p False "c # cs"])
    then show ?thesis using m by auto
  qed
qed

lemma parse_plain_template:
  "plain_template s \<Longrightarrow> parse_template groups s = Inr (map T_Char s)"
proof (induction s rule: plain_template.induct)
  case 1
  then show ?case by simp
next
  case (2 c)
  then show ?case by (simp add: then_items_def)
next
  case (3 c d ds)
  show ?case
  proof (cases "c = backslash")
    case True
    then have d: "d = newline" and ds: "plain_template ds" using 3(3) by simp_all
    have "parse_template groups ds = Inr (map T_Char ds)" using 3(1) True ds by simp
    then show ?thesis
      using True d
      by (simp add: then_items_def newline_def backslash_def is_digit_def escape_char_def
            is_ascii_letter_def)
  next
    case False
    then have "plain_template (d # ds)" using 3(3) by simp
    then have "parse_template groups (d # ds) = Inr (map T_Char (d # ds))" using 3(2) False by simp
    then show ?thesis using False by (simp add: then_items_def)
  qed
qed

lemma expand_literal: "expand_template (map T_Char s) g0 g1 = s"
  by (induction s) simp_all

lemma plain_no_backslash: "backslash \<notin> set s \<Longrightarrow> plain_template s"
  by (induction s rule: plain_template.induct) auto

lemma plain_append:
  "backslash \<notin> set xs \<Longrightarrow> plain_template (xs @ ys) = plain_template ys"
proof (induction xs)
  case Nil
  then show ?case by simp
next
  case (Cons x xs)
  then show ?case by (cases "xs @ ys") auto
qed

lemma plain_continuation:
  "plain_template (backslash # newline # ys) = plain_template ys"
  by simp

lemma set_str_replace:
  assumes "old \<noteq> []"
  shows "set (str_replace old new s) \<subseteq> set s \<union> set new"
proof (induction "length s" arbitrary: s rule: less_induct)
  case less
  show ?case
  proof (cases s)
    case Nil
    then show ?thesis using assms by (simp add: str_replace_Nil)
  next
    case (Cons c cs)
    show ?thesis
    proof (cases "startswith (c # cs) old")
      case True
      have "length (drop (length old) (c # cs)) < length s" using Cons assms by simp
      then have "set (str_replace old new (drop (length old) (c # cs)))
          \<subseteq> set (drop (length old) (c # cs)) \<union> set new"
        using less by blast
      moreover have "set (drop (length old) (c # cs)) \<subseteq> set (c # cs)" by (rule set_drop_subset)
      ultimately show ?thesis
        using Cons str_replace_hit [OF assms True, of new] by auto
    next
      case False
      have "set (str_replace old new cs) \<subseteq> set cs \<union> set new" using less [of cs] Cons by simp
      then show ?thesis using Cons str_replace_step [OF assms False, of new] by auto
    qed
  qed
qed

lemma set_strip: "set (strip s) \<subseteq> set s"
proof -
  have "set (strip s) = set (dropWhile is_space (rev (dropWhile is_space s)))"
    by (simp add: strip_def)
  also have "\<dots> \<subseteq> set (rev (dropWhile is_space s))" by (auto dest: set_dropWhileD)
  also have "\<dots> \<subseteq> set s" by (auto dest: set_dropWhileD)
  finally show ?thesis .
qed

lemma set_str_split: "l \<in> set (str_split sep s) \<Longrightarrow> set l \<subseteq> set s"
proof (induction "length s" arbitrary: s rule: less_induct)
  case less
  show ?case
  proof (cases "dropWhile (\<lambda>c. c \<noteq> sep) s")
    case Nil
    have "str_split sep s = [s]" unfolding str_split.simps [of sep s] Nil by simp
    then show ?thesis using less.prems by simp
  next
    case (Cons x after)
    have split: "str_split sep s = takeWhile (\<lambda>c. c \<noteq> sep) s # str_split sep after"
      unfolding str_split.simps [of sep s] Cons by simp
    have "length after < length (dropWhile (\<lambda>c. c \<noteq> sep) s)" using Cons by simp
    also have "\<dots> \<le> length s" by (rule length_dropWhile_le)
    finally have shorter: "length after < length s" .
    have "set after \<subseteq> set (dropWhile (\<lambda>c. c \<noteq> sep) s)" using Cons by auto
    then have after: "set after \<subseteq> set s" by (auto dest: set_dropWhileD)
    consider "l = takeWhile (\<lambda>c. c \<noteq> sep) s" | "l \<in> set (str_split sep after)"
      using less.prems split by auto
    then show ?thesis
    proof cases
      case 1
      then show ?thesis by (auto dest: set_takeWhileD)
    next
      case 2
      then show ?thesis using less.hyps [OF shorter] after by blast
    qed
  qed
qed

lemma export_var_line_chars:
  "set (export_var_line line) \<subseteq> set line \<union> set ''$OPENROUTER_API_KEY'' \<union> set ''$MODEL_ID''"
proof -
  have a: "set (str_replace ''export '' [] line) \<subseteq> set line"
    using set_str_replace [of "''export ''" "[]" line] by simp
  have b: "\<And>s. set (str_replace ''\"${OPENROUTER_API_KEY}\"'' ''$OPENROUTER_API_KEY'' s)
            \<subseteq> set s \<union> set ''$OPENROUTER_API_KEY''"
    by (rule set_str_replace) simp
  have c: "\<And>s. set (str_replace ''${OPENROUTER_API_KEY}'' ''$OPENROUTER_API_KEY'' s)
            \<subseteq> set s \<union> set ''$OPENROUTER_API_KEY''"
    by (rule set_str_replace) simp
  have d: "\<And>s. set (str_replace ''${MODEL_ID}'' ''$MODEL_ID'' s) \<subseteq> set s \<union> set ''$MODEL_ID''"
    by (rule set_str_replace) simp
  show ?thesis
    unfolding export_var_line_def canonical_refs_def
    using a b c d by blast
qed

lemma args_no_backslash:
  assumes "backslash \<notin> set body"
  shows "\<forall>a \<in> set (map quoted_arg (export_lines body)). backslash \<notin> set a"
proof -
  have lines: "\<forall>line \<in> set (export_lines body). backslash \<notin> set line"
    using assms set_str_split [of _ newline body] set_strip
    by (fastforce simp: export_lines_def)
  have "\<And>line. backslash \<notin> set line \<Longrightarrow> backslash \<notin> set (quoted_arg line)"
    using export_var_line_chars by (fastforce simp: quoted_arg_def backslash_def dquote_def)
  then show ?thesis using lines by simp
qed

lemma plain_join:
  "\<forall>a \<in> set args. backslash \<notin> set a \<Longrightarrow>
     plain_template (str_join arg_separator args @ more) = plain_template more"
proof (induction arg_separator args rule: str_join.induct)
  case 1
  then show ?case by simp
next
  case (2 x)
  then show ?case by (simp add: plain_append)
next
  case (3 x y ys)
  have sp: "backslash \<notin> set '' ''" "backslash \<notin> set ''    ''" by (simp_all add: backslash_def)
  have "plain_template (str_join arg_separator (x # y # ys) @ more)
      = plain_template (x @ '' '' @ backslash # newline # ''    '' @ str_join arg_separator (y # ys) @ more)"
    by (simp add: arg_separator_def)
  also have "\<dots> = plain_template (backslash # newline # ''    '' @ str_join arg_separator (y # ys) @ more)"
    using 3(2) sp plain_append [of "x @ '' ''"] by simp
  also have "\<dots> = plain_template (''    '' @ str_join arg_separator (y # ys) @ more)"
    by (simp only: plain_continuation)
  also have "\<dots> = plain_template (str_join arg_separator (y # ys) @ more)"
    using sp(2) by (rule plain_append)
  also have "\<dots> = plain_template more" using 3 by simp
  finally show ?case .
qed

lemma plain_ssh_replacement:
  assumes "backslash \<notin> set ip" and "\<forall>a \<in> set args. backslash \<notin> set a"
  shows "plain_template (ssh_replacement ip args)"
proof -
  let ?head = "''log_warn \"Setting up environment variables...\"'' @ [newline]
     @ ''inject_env_vars_ssh \"$'' @ ip @ ''\" upload_file run_server ''"
  have h: "backslash \<notin> set ?head" using assms(1) by (simp add: backslash_def newline_def)
  have sp: "backslash \<notin> set ''    ''" by (simp add: backslash_def)
  have "ssh_replacement ip args
      = ?head @ backslash # newline # ''    '' @ str_join arg_separator args @ [newline]"
    by (simp add: ssh_replacement_def)
  then have "plain_template (ssh_replacement ip args)
      = plain_template (backslash # newline # ''    '' @ str_join arg_separator args @ [newline])"
    using plain_append [OF h] by simp
  also have "\<dots> = plain_template (''    '' @ str_join arg_separator args @ [newline])"
    by (simp only: plain_continuation)
  also have "\<dots> = plain_template (str_join arg_separator args @ [newline])"
    using sp by (rule plain_append)
  also have "\<dots> = plain_template [newline]" using assms(2) by (rule plain_join)
  also have "\<dots>" by (simp add: newline_def backslash_def)
  finally show ?thesis .
qed

lemma find_idiom_search:
  "find_idiom ip content = (pattern, Some m) \<Longrightarrow> re_search pattern content = Some m"
  by (auto simp: find_idiom_def split: option.splits)

lemma written_text:
  assumes "find_idiom ip content = (pattern, Some m)"
    and "re_sub pattern (ssh_replacement ip args) content = Inr new_content"
    and "backslash \<notin> set ip" and "\<forall>a \<in> set args. backslash \<notin> set a"
  shows "\<exists>tail. new_content = m_before m @ ssh_replacement ip args @ tail"
proof -
  let ?repl = "ssh_replacement ip args"
  have tmpl: "parse_template 1 ?repl = Inr (map T_Char ?repl)"
    using plain_ssh_replacement [OF assms(3,4)] by (rule parse_plain_template)
  have new: "new_content = sub_from pattern (map T_Char ?repl) None False content"
    using assms(2) tmpl by (simp add: re_sub_def)
  have "search_from pattern [] content = Some m"
    using find_idiom_search [OF assms(1)] by (simp add: re_search_def)
  then obtain skipped tail where "m_before m = rev [] @ skipped"
    and "sub_from pattern (map T_Char ?repl) None False content
           = skipped @ expand_template (map T_Char ?repl) (m_group0 m) (m_group1 m) @ tail"
    using sub_from_first_match [of pattern "[]" content m None "map T_Char ?repl"] by auto
  then show ?thesis using new by (simp add: expand_literal)
qed

lemma run_states_suffix: "st' \<in> set (run_states P s p g) \<Longrightarrow> suffix (st_rest st') s"
proof (induction s arbitrary: p)
  case Nil
  then show ?case by simp
next
  case (Cons c cs)
  then show ?case by (auto simp: suffix_Cons split: if_splits)
qed

lemma rx_match_suffix: "st' \<in> set (rx_match r st) \<Longrightarrow> suffix (st_rest st') (st_rest st)"
proof (induction r arbitrary: st st')
  case (Lit lit)
  then show ?case by (auto simp: consume_def suffix_drop split: if_splits)
next
  case Dot
  show ?case
  proof (cases "st_rest st")
    case Nil
    with Dot show ?thesis by simp
  next
    case (Cons c cs)
    with Dot have "st_rest st' = cs" by simp
    with Cons show ?thesis by (simp add: suffix_Cons)
  qed
next
  case (Plus_Greedy P)
  then have "st' \<in> set (run_states P (st_rest st) (st_prev st) (st_group st))"
    by (cases "run_states P (st_rest st) (st_prev st) (st_group st)") auto
  then show ?case by (rule run_states_suffix)
next
  case (Star_Lazy P)
  then show ?case by (auto intro: run_states_suffix)
next
  case Bol
  then show ?case by (auto split: if_splits)
next
  case (Seq a b)
  then obtain mid where "mid \<in> set (rx_match a st)" "st' \<in> set (rx_match b mid)" by auto
  then show ?case using Seq.IH suffix_order.trans by blast
next
  case (Alt a b)
  then show ?case by auto
next
  case (Opt a)
  then show ?case by auto
next
  case (Group a)
  then show ?case by auto
qed

lemma consumed_suffix: "suffix s' s \<Longrightarrow> consumed s s' @ s' = s"
  by (auto simp: consumed_def suffix_def)

lemma search_from_decomp:
  "search_from r seen s = Some m \<Longrightarrow> rev seen @ s = m_before m @ m_group0 m @ m_after m"
proof (induction s arbitrary: seen)
  case Nil
  then show ?case by (auto split: list.splits)
next
  case (Cons c cs)
  show ?case
  proof (cases "rx_match r (MState (c # cs) (case seen of [] \<Rightarrow> None | p # _ \<Rightarrow> Some p) None)")
    case Nil
    then have "search_from r (c # seen) cs = Some m" using Cons.prems by simp
    then show ?thesis using Cons.IH [of "c # seen"] by simp
  next
    case (Cons st sts)
    then have m: "m = Match (rev seen) (consumed (c # cs) (st_rest st)) (group_text st) (st_rest st)"
      using Cons.prems by simp
    have "suffix (st_rest st) (c # cs)"
      using rx_match_suffix [of st r "MState (c # cs) (case seen of [] \<Rightarrow> None | p # _ \<Rightarrow> Some p) None"]
        Cons by simp
    then show ?thesis using m consumed_suffix by simp
  qed
qed

lemma re_search_decomp:
  "re_search r s = Some m \<Longrightarrow> s = m_before m @ m_group0 m @ m_after m"
  using search_from_decomp [of r "[]" s m] by (simp add: re_search_def)

text \<open>
  Claim C7. When the function returns \<^verbatim>\<open>True\<close>, the arguments of the replacement are
  the qualifying lines of the heredoc body of the match, one argument for each line, in
  the order of the lines: each is its line with the keyword removed, the references
  rewritten and quotes around it. They are joined, one to a continuation line, behind the
  call of the helper, and the text written is what \<^verbatim>\<open>pattern.sub\<close> makes of the text read
  with this replacement. When neither the heredoc body nor the destination name holds a
  backslash, the text written is the text before the match, then this replacement as it
  is, then the rest.
\<close>

theorem rendered_args_follow_export_lines:
  assumes "refactor_ssh_cloud_script fs filepath ip = (Inr True, fs')"
  shows "\<exists>raw pattern m body new_content.
           fs filepath = Some raw
         \<and> find_idiom ip (universal_newlines raw) = (pattern, Some m)
         \<and> universal_newlines raw = m_before m @ m_group0 m @ m_after m
         \<and> m_group1 m = Some body
         \<and> export_lines body \<noteq> []
         \<and> extract_exports body = map quoted_arg (export_lines body)
         \<and> length (extract_exports body) = length (export_lines body)
         \<and> ssh_replacement ip (extract_exports body)
              = ''log_warn \"Setting up environment variables...\"'' @ [newline]
                @ ''inject_env_vars_ssh \"$'' @ ip @ ''\" upload_file run_server '' @ [backslash, newline]
                @ ''    '' @ str_join arg_separator (map quoted_arg (export_lines body)) @ [newline]
         \<and> re_sub pattern (ssh_replacement ip (extract_exports body)) (universal_newlines raw)
              = Inr new_content
         \<and> (backslash \<notin> set ip \<and> backslash \<notin> set body \<longrightarrow>
               (\<exists>tail. new_content = m_before m @ ssh_replacement ip (extract_exports body) @ tail))
         \<and> fs' = fs(filepath \<mapsto> new_content)"
proof -
  obtain raw new_content where raw: "fs filepath = Some raw"
    and tx: "refactor_ssh_cloud_text ip (universal_newlines raw) = Refactored new_content"
    and fs': "fs' = fs(filepath \<mapsto> new_content)"
    using refactor_ssh_script_True [OF assms] by blast
  obtain pattern m body where f: "find_idiom ip (universal_newlines raw) = (pattern, Some m)"
    and g: "m_group1 m = Some body" and ne: "extract_exports body \<noteq> []"
    and sb: "re_sub pattern (ssh_replacement ip (extract_exports body)) (universal_newlines raw)
               = Inr new_content"
    using refactored_ssh_text [OF tx] by blast
  have lines: "export_lines body \<noteq> []" using ne by (simp add: extract_exports_map)
  have span: "universal_newlines raw = m_before m @ m_group0 m @ m_after m"
    using find_idiom_search [OF f] by (rule re_search_decomp)
  have written: "backslash \<notin> set ip \<and> backslash \<notin> set body \<longrightarrow>
      (\<exists>tail. new_content = m_before m @ ssh_replacement ip (extract_exports body) @ tail)"
  proof
    assume "backslash \<notin> set ip \<and> backslash \<notin> set body"
    then have "backslash \<notin> set ip" and "\<forall>a \<in> set (extract_exports body). backslash \<notin> set a"
      using args_no_backslash [of body] by (simp_all add: extract_exports_map)
    then show "\<exists>tail. new_content = m_before m @ ssh_replacement ip (extract_exports body) @ tail"
      using written_text [OF f sb] by blast
  qed
  have repl: "ssh_replacement ip (extract_exports body)
              = ''log_warn \"Setting up environment variables...\"'' @ [newline]
                @ ''inject_env_vars_ssh \"$'' @ ip @ ''\" upload_file run_server '' @ [backslash, newline]
                @ ''    '' @ str_join arg_separator (map quoted_arg (export_lines body)) @ [newline]"
    by (simp add: ssh_replacement_def extract_exports_map)
  have len: "length (extract_exports body) = length (export_lines body)"
    by (simp add: extract_exports_map)
  show ?thesis
    using raw f span g lines extract_exports_map [of body] len repl sb written fs' by blast
qed

subsection \<open>The batch drivers\<close>

lemma commit_frame: "q \<noteq> p \<Longrightarrow> snd (commit fs p out) q = fs q"
  by (cases out) (simp_all add: commit_def)

lemma commit_local:
  "fs p = fs' p \<Longrightarrow> fst (commit fs p out) = fst (commit fs' p out)
     \<and> snd (commit fs p out) p = snd (commit fs' p out) p"
  by (cases out) (simp_all add: commit_def)

lemma ssh_frame: "q \<noteq> p \<Longrightarrow> snd (refactor_ssh_cloud_script fs p ip) q = fs q"
  by (simp add: refactor_ssh_cloud_script_def read_text_def commit_frame split: option.splits)

lemma ssh_local:
  assumes "fs p = fs' p"
  shows "fst (refactor_ssh_cloud_script fs p ip) = fst (refactor_ssh_cloud_script fs' p ip)
       \<and> snd (refactor_ssh_cloud_script fs p ip) p = snd (refactor_ssh_cloud_script fs' p ip) p"
proof (cases "fs p")
  case None
  then show ?thesis using assms by (simp add: refactor_ssh_cloud_script_def read_text_def)
next
  case (Some raw)
  then have "fs' p = Some raw" using assms by simp
  then show ?thesis
    using Some commit_local [of fs p fs', OF assms]
    by (simp add: refactor_ssh_cloud_script_def read_text_def)
qed

lemma sprite_frame: "q \<noteq> p \<Longrightarrow> snd (refactor_sprite_script fs p) q = fs q"
  by (simp add: refactor_sprite_script_def read_text_def commit_frame split: option.splits)

lemma sprite_local:
  assumes "fs p = fs' p"
  shows "fst (refactor_sprite_script fs p) = fst (refactor_sprite_script fs' p)
       \<and> snd (refactor_sprite_script fs p) p = snd (refactor_sprite_script fs' p) p"
proof (cases "fs p")
  case None
  then show ?thesis using assms by (simp add: refactor_sprite_script_def read_text_def)
next
  case (Some raw)
  then have "fs' p = Some raw" using assms by simp
  then show ?thesis
    using Some commit_local [of fs p fs', OF assms]
    by (simp add: refactor_sprite_script_def read_text_def)
qed

lemma length_filter_all: "length (filter P xs) = length xs \<longleftrightarrow> (\<forall>x \<in> set xs. P x)"
proof (induction xs)
  case Nil
  then show ?case by simp
next
  case (Cons x xs)
  have "length (filter P xs) \<le> length xs" by simp
  then have "length (filter P xs) \<noteq> Suc (length xs)" by arith
  then show ?case using Cons by auto
qed

text \<open>The batch loop over candidates with distinct paths.\<close>

lemma run_batch_no_raise:
  assumes frame: "\<And>fs c q. q \<noteq> pth c \<Longrightarrow> snd (step fs c) q = fs q"
    and loc: "\<And>fs fs' c. fs (pth c) = fs' (pth c) \<Longrightarrow>
           fst (step fs c) = fst (step fs' c) \<and> snd (step fs c) (pth c) = snd (step fs' c) (pth c)"
  shows "distinct (map pth cs) \<Longrightarrow> (\<forall>c \<in> set cs. fs (pth c) = fs0 (pth c)) \<Longrightarrow>
         (\<forall>c \<in> set cs. fst (step fs0 c) \<noteq> Inl Exception) \<Longrightarrow>
         fst (run_batch step fs cs n s)
           = Inr (n + length cs, s + length (filter (\<lambda>c. fst (step fs0 c) = Inr True) cs))
         \<and> (\<forall>c \<in> set cs. snd (run_batch step fs cs n s) (pth c) = snd (step fs0 c) (pth c))
         \<and> (\<forall>q. q \<notin> pth ` set cs \<longrightarrow> snd (run_batch step fs cs n s) q = fs q)"
proof (induction cs arbitrary: fs n s)
  case Nil
  then show ?case by simp
next
  case (Cons c cs)
  have here: "fs (pth c) = fs0 (pth c)" using Cons.prems(2) by simp
  note l = loc [of fs c fs0, OF here]
  obtain r fs1 where st: "step fs c = (r, fs1)" by (cases "step fs c")
  have r0: "fst (step fs0 c) = r" using l st by simp
  have "r \<noteq> Inl Exception" using r0 Cons.prems(3) by auto
  then obtain ok where r: "r = Inr ok"
  proof (cases r)
    case (Inl e)
    then show ?thesis using \<open>r \<noteq> Inl Exception\<close> by (cases e) simp
  next
    case (Inr ok)
    then show ?thesis using that by simp
  qed
  have fs1_other: "\<And>q. q \<noteq> pth c \<Longrightarrow> fs1 q = fs q" using frame [of _ c fs] st by simp
  have fs1_here: "fs1 (pth c) = snd (step fs0 c) (pth c)" using l st by simp
  have notin: "pth c \<notin> pth ` set cs" using Cons.prems(1) by simp
  have d: "distinct (map pth cs)" using Cons.prems(1) by simp
  have inv: "\<forall>c' \<in> set cs. fs1 (pth c') = fs0 (pth c')"
    using fs1_other notin Cons.prems(2) by (metis image_eqI list.set_intros(2))
  have nr: "\<forall>c' \<in> set cs. fst (step fs0 c') \<noteq> Inl Exception" using Cons.prems(3) by simp
  note ih = Cons.IH [OF d inv nr, of "n + 1" "if ok then s + 1 else s"]
  have unfold: "run_batch step fs (c # cs) n s = run_batch step fs1 cs (n + 1) (if ok then s + 1 else s)"
    using st r by simp
  have count: "fst (run_batch step fs (c # cs) n s)
      = Inr (n + length (c # cs), s + length (filter (\<lambda>c. fst (step fs0 c) = Inr True) (c # cs)))"
    using ih r0 r unfold by auto
  have frame_all: "\<forall>q. q \<notin> pth ` set (c # cs) \<longrightarrow> snd (run_batch step fs (c # cs) n s) q = fs q"
    using ih fs1_other unfold by auto
  have c_final: "snd (run_batch step fs (c # cs) n s) (pth c) = snd (step fs0 c) (pth c)"
    using ih notin fs1_here unfold by auto
  have rest_final: "\<forall>c' \<in> set cs. snd (run_batch step fs (c # cs) n s) (pth c') = snd (step fs0 c') (pth c')"
    using ih unfold by auto
  show ?case using count frame_all c_final rest_final by simp
qed

lemma run_batch_raise:
  assumes frame: "\<And>fs c q. q \<noteq> pth c \<Longrightarrow> snd (step fs c) q = fs q"
    and loc: "\<And>fs fs' c. fs (pth c) = fs' (pth c) \<Longrightarrow>
           fst (step fs c) = fst (step fs' c) \<and> snd (step fs c) (pth c) = snd (step fs' c) (pth c)"
  shows "distinct (map pth cs) \<Longrightarrow> (\<forall>c \<in> set cs. fs (pth c) = fs0 (pth c)) \<Longrightarrow>
         (\<exists>c \<in> set cs. fst (step fs0 c) = Inl Exception) \<Longrightarrow>
         fst (run_batch step fs cs n s) = Inl Exception"
proof (induction cs arbitrary: fs n s)
  case Nil
  then show ?case by simp
next
  case (Cons c cs)
  have here: "fs (pth c) = fs0 (pth c)" using Cons.prems(2) by simp
  note l = loc [of fs c fs0, OF here]
  obtain r fs1 where st: "step fs c = (r, fs1)" by (cases "step fs c")
  have r0: "fst (step fs0 c) = r" using l st by simp
  show ?case
  proof (cases r)
    case (Inl e)
    then show ?thesis using st by (cases e) simp
  next
    case (Inr ok)
    have fs1_other: "\<And>q. q \<noteq> pth c \<Longrightarrow> fs1 q = fs q" using frame [of _ c fs] st by simp
    have notin: "pth c \<notin> pth ` set cs" using Cons.prems(1) by simp
    have d: "distinct (map pth cs)" using Cons.prems(1) by simp
    have inv: "\<forall>c' \<in> set cs. fs1 (pth c') = fs0 (pth c')"
      using fs1_other notin Cons.prems(2) by (metis image_eqI list.set_intros(2))
    have ex: "\<exists>c' \<in> set cs. fst (step fs0 c') = Inl Exception"
      using Cons.prems(3) r0 Inr by auto
    show ?thesis using Cons.IH [OF d inv ex] st Inr by simp
  qed
qed

lemma run_batch_frame:
  assumes frame: "\<And>fs c q. q \<noteq> pth c \<Longrightarrow> snd (step fs c) q = fs q"
  shows "q \<notin> pth ` set cs \<Longrightarrow> snd (run_batch step fs cs n s) q = fs q"
proof (induction cs arbitrary: fs n s)
  case Nil
  then show ?case by simp
next
  case (Cons c cs)
  obtain r fs1 where st: "step fs c = (r, fs1)" by (cases "step fs c")
  have fs1: "fs1 q = fs q" using frame [of q c fs] st Cons.prems by simp
  show ?case
  proof (cases r)
    case (Inl e)
    then show ?thesis using st fs1 by simp
  next
    case (Inr ok)
    then show ?thesis using st fs1 Cons.IH [of fs1] Cons.prems by simp
  qed
qed

lemma run_batch_reached:
  assumes frame: "\<And>fs c q. q \<noteq> pth c \<Longrightarrow> snd (step fs c) q = fs q"
    and loc: "\<And>fs fs' c. fs (pth c) = fs' (pth c) \<Longrightarrow>
           fst (step fs c) = fst (step fs' c) \<and> snd (step fs c) (pth c) = snd (step fs' c) (pth c)"
  shows "distinct (map pth (before @ c # after)) \<Longrightarrow>
         (\<forall>x \<in> set (before @ c # after). fs (pth x) = fs0 (pth x)) \<Longrightarrow>
         (\<forall>b \<in> set before. fst (step fs0 b) \<noteq> Inl Exception) \<Longrightarrow>
         snd (run_batch step fs (before @ c # after) n s) (pth c) = snd (step fs0 c) (pth c)"
proof (induction before arbitrary: fs n s)
  case Nil
  have here: "fs (pth c) = fs0 (pth c)" using Nil.prems(2) by simp
  note l = loc [of fs c fs0, OF here]
  obtain r fs1 where st: "step fs c = (r, fs1)" by (cases "step fs c")
  have fs1: "fs1 (pth c) = snd (step fs0 c) (pth c)" using l st by simp
  have notin: "pth c \<notin> pth ` set after" using Nil.prems(1) by simp
  show ?case
  proof (cases r)
    case (Inl e)
    then show ?thesis using st fs1 by simp
  next
    case (Inr ok)
    then show ?thesis
      using st fs1 run_batch_frame [of pth step "pth c" after fs1, OF frame notin] by simp
  qed
next
  case (Cons b before)
  have here: "fs (pth b) = fs0 (pth b)" using Cons.prems(2) by simp
  note l = loc [of fs b fs0, OF here]
  obtain r fs1 where st: "step fs b = (r, fs1)" by (cases "step fs b")
  have "r \<noteq> Inl Exception" using l st Cons.prems(3) by auto
  then obtain ok where r: "r = Inr ok"
  proof (cases r)
    case (Inl e)
    then show ?thesis using \<open>r \<noteq> Inl Exception\<close> by (cases e) simp
  next
    case (Inr ok)
    then show ?thesis using that by simp
  qed
  have fs1_other: "\<And>q. q \<noteq> pth b \<Longrightarrow> fs1 q = fs q" using frame [of _ b fs] st by simp
  have notin: "pth b \<notin> pth ` set (before @ c # after)" using Cons.prems(1) by auto
  have d: "distinct (map pth (before @ c # after))" using Cons.prems(1) by simp
  have inv: "\<forall>x \<in> set (before @ c # after). fs1 (pth x) = fs0 (pth x)"
  proof
    fix x assume x: "x \<in> set (before @ c # after)"
    then have "pth x \<in> pth ` set (before @ c # after)" by (rule imageI)
    then have "pth x \<noteq> pth b" using notin by metis
    then have "fs1 (pth x) = fs (pth x)" by (rule fs1_other)
    moreover have "fs (pth x) = fs0 (pth x)" using Cons.prems(2) x by auto
    ultimately show "fs1 (pth x) = fs0 (pth x)" by simp
  qed
  have nr: "\<forall>x \<in> set before. fst (step fs0 x) \<noteq> Inl Exception" using Cons.prems(3) by simp
  show ?case
    using Cons.IH [OF d inv nr, of "n + 1" "if ok then s + 1 else s"] st r by simp
qed

lemma exit_status_zero:
  assumes frame: "\<And>fs c q. q \<noteq> pth c \<Longrightarrow> snd (step fs c) q = fs q"
    and loc: "\<And>fs fs' c. fs (pth c) = fs' (pth c) \<Longrightarrow>
           fst (step fs c) = fst (step fs' c) \<and> snd (step fs c) (pth c) = snd (step fs' c) (pth c)"
    and d: "distinct (map pth cs)"
  shows "exit_status (fst (run_batch step fs cs 0 0)) = 0 \<longleftrightarrow> (\<forall>c \<in> set cs. fst (step fs c) = Inr True)"
proof (cases "\<exists>c \<in> set cs. fst (step fs c) = Inl Exception")
  case True
  have "fst (run_batch step fs cs 0 0) = Inl Exception"
    using run_batch_raise [of pth step cs fs fs 0 0, OF frame loc d] True by blast
  moreover have "\<not> (\<forall>c \<in> set cs. fst (step fs c) = Inr True)"
  proof -
    obtain c where "c \<in> set cs" "fst (step fs c) = Inl Exception" using True by blast
    then have "c \<in> set cs" "fst (step fs c) \<noteq> Inr True" by simp_all
    then show ?thesis by blast
  qed
  ultimately show ?thesis by (simp add: exit_status_def)
next
  case False
  have "fst (run_batch step fs cs 0 0)
      = Inr (0 + length cs, 0 + length (filter (\<lambda>c. fst (step fs c) = Inr True) cs))"
    using run_batch_no_raise [of pth step cs fs fs 0 0, OF frame loc d] False by blast
  then show ?thesis
    using length_filter_all [of "\<lambda>c. fst (step fs c) = Inr True" cs]
    by (simp add: exit_status_def)
qed

lemma scripts_of_dir: "script \<in> set (scripts_of listing dir) \<Longrightarrow> fst script = dir"
  by (auto simp: scripts_of_def split: option.splits)

lemma distinct_scripts_of:
  assumes "\<forall>dir names. listing dir = Some names \<longrightarrow> distinct names"
  shows "distinct (scripts_of listing dir)"
  using assms by (auto simp: scripts_of_def distinct_map inj_on_def split: option.splits)

lemma scripts_of_disjoint:
  "d \<noteq> e \<Longrightarrow> set (scripts_of listing d) \<inter> set (scripts_of listing e) = {}"
  using scripts_of_dir [of _ listing d] scripts_of_dir [of _ listing e] by fastforce

lemma distinct_candidates:
  assumes "\<forall>dir names. listing dir = Some names \<longrightarrow> distinct names"
  shows "distinct (map fst (candidates listing))"
proof -
  have "map fst (candidates listing)
      = scripts_of listing ''digitalocean'' @ scripts_of listing ''hetzner''
        @ scripts_of listing ''linode'' @ scripts_of listing ''vultr''"
    by (simp add: candidates_def cloud_configs_def comp_def)
  moreover have "distinct (scripts_of listing ''digitalocean'' @ scripts_of listing ''hetzner''
        @ scripts_of listing ''linode'' @ scripts_of listing ''vultr'')"
    by (simp add: distinct_scripts_of [OF assms] scripts_of_disjoint Int_Un_distrib)
  ultimately show ?thesis by simp
qed

lemma candidate_frame: "q \<noteq> fst c \<Longrightarrow> snd (refactor_candidate fs c) q = fs q"
  by (simp add: refactor_candidate_def ssh_frame)

lemma candidate_local:
  "fs (fst c) = fs' (fst c) \<Longrightarrow>
     fst (refactor_candidate fs c) = fst (refactor_candidate fs' c)
     \<and> snd (refactor_candidate fs c) (fst c) = snd (refactor_candidate fs' c) (fst c)"
  unfolding refactor_candidate_def by (rule ssh_local)

lemma fix_braces_status: "fst (fix_braces_main oracle fs shell_files) = 0"
  by (simp add: fix_braces_main_def split: prod.splits)

text \<open>
  Claim C10, as amended. For directory listings without repeated names: the driver of
  refactor\_env\_injection.py ends with status 0 exactly when every candidate was refactored,
  and every candidate the loop reaches (no candidate before it raises) holds at the end
  what refactoring that candidate alone leaves in its file, so that the scripts refactored
  stay refactored when another one fails. The driver of refactor\_sprite\_env.py ends with
  status 1 when there is no sprite directory, and otherwise behaves in the same way. The
  driver of fix\_braces.py always ends with status 0.
\<close>

theorem batch_exit_status:
  assumes "\<forall>dir names. listing dir = Some names \<longrightarrow> distinct names"
  shows "(fst (env_injection_main listing fs) = 0
            \<longleftrightarrow> (\<forall>c \<in> set (candidates listing). fst (refactor_candidate fs c) = Inr True))
       \<and> (\<forall>before c after.
             candidates listing = before @ c # after
             \<and> (\<forall>b \<in> set before. fst (refactor_candidate fs b) \<noteq> Inl Exception) \<longrightarrow>
             snd (env_injection_main listing fs) (fst c) = snd (refactor_candidate fs c) (fst c))
       \<and> (listing ''sprite'' = None \<longrightarrow> sprite_main listing fs = (1, fs))
       \<and> (listing ''sprite'' \<noteq> None \<longrightarrow>
            (fst (sprite_main listing fs) = 0
               \<longleftrightarrow> (\<forall>script \<in> set (scripts_of listing ''sprite'').
                      fst (refactor_sprite_script fs script) = Inr True))
            \<and> (\<forall>before script after.
                  scripts_of listing ''sprite'' = before @ script # after
                  \<and> (\<forall>b \<in> set before. fst (refactor_sprite_script fs b) \<noteq> Inl Exception) \<longrightarrow>
                  snd (sprite_main listing fs) script = snd (refactor_sprite_script fs script) script))
       \<and> fst (fix_braces_main oracle scanner_fs shell_files) = 0"
proof -
  note d = distinct_candidates [OF assms]
  obtain r fs1 where rb: "run_batch refactor_candidate fs (candidates listing) 0 0 = (r, fs1)"
    by (cases "run_batch refactor_candidate fs (candidates listing) 0 0")
  have main: "env_injection_main listing fs = (exit_status r, fs1)"
    using rb by (simp add: env_injection_main_def)
  have "exit_status (fst (run_batch refactor_candidate fs (candidates listing) 0 0)) = 0
          \<longleftrightarrow> (\<forall>c \<in> set (candidates listing). fst (refactor_candidate fs c) = Inr True)"
    by (rule exit_status_zero [of fst refactor_candidate, OF candidate_frame candidate_local d])
  then have a: "fst (env_injection_main listing fs) = 0
            \<longleftrightarrow> (\<forall>c \<in> set (candidates listing). fst (refactor_candidate fs c) = Inr True)"
    unfolding main rb by simp
  have b: "\<forall>before c after.
             candidates listing = before @ c # after
             \<and> (\<forall>b \<in> set before. fst (refactor_candidate fs b) \<noteq> Inl Exception) \<longrightarrow>
             snd (env_injection_main listing fs) (fst c) = snd (refactor_candidate fs c) (fst c)"
  proof (intro allI impI)
    fix before c after
    assume h: "candidates listing = before @ c # after
             \<and> (\<forall>b \<in> set before. fst (refactor_candidate fs b) \<noteq> Inl Exception)"
    then have dd: "distinct (map fst (before @ c # after))" using d by simp
    have "snd (run_batch refactor_candidate fs (before @ c # after) 0 0) (fst c)
            = snd (refactor_candidate fs c) (fst c)"
      using run_batch_reached [of fst refactor_candidate before c after fs fs 0 0,
          OF candidate_frame candidate_local dd] h
      by blast
    then show "snd (env_injection_main listing fs) (fst c) = snd (refactor_candidate fs c) (fst c)"
      using h main rb by simp
  qed
  have c: "listing ''sprite'' \<noteq> None \<longrightarrow>
            (fst (sprite_main listing fs) = 0
               \<longleftrightarrow> (\<forall>script \<in> set (scripts_of listing ''sprite'').
                      fst (refactor_sprite_script fs script) = Inr True))
            \<and> (\<forall>before script after.
                  scripts_of listing ''sprite'' = before @ script # after
                  \<and> (\<forall>b \<in> set before. fst (refactor_sprite_script fs b) \<noteq> Inl Exception) \<longrightarrow>
                  snd (sprite_main listing fs) script = snd (refactor_sprite_script fs script) script)"
  proof
    assume ex: "listing ''sprite'' \<noteq> None"
    obtain r2 fs2 where rs: "run_batch refactor_sprite_script fs (scripts_of listing ''sprite'') 0 0 = (r2, fs2)"
      by (cases "run_batch refactor_sprite_script fs (scripts_of listing ''sprite'') 0 0")
    have sm: "sprite_main listing fs = (exit_status r2, fs2)"
      using rs ex by (auto simp: sprite_main_def)
    have ds: "distinct (map (\<lambda>script. script) (scripts_of listing ''sprite''))"
      using distinct_scripts_of [OF assms] by simp
    have "exit_status (fst (run_batch refactor_sprite_script fs (scripts_of listing ''sprite'') 0 0)) = 0
          \<longleftrightarrow> (\<forall>script \<in> set (scripts_of listing ''sprite'').
                      fst (refactor_sprite_script fs script) = Inr True)"
      by (rule exit_status_zero [of "\<lambda>script. script" refactor_sprite_script, OF sprite_frame sprite_local ds])
    then have c1: "fst (sprite_main listing fs) = 0
               \<longleftrightarrow> (\<forall>script \<in> set (scripts_of listing ''sprite'').
                      fst (refactor_sprite_script fs script) = Inr True)"
      unfolding sm rs by simp
    have c2: "\<forall>before script after.
                  scripts_of listing ''sprite'' = before @ script # after
                  \<and> (\<forall>b \<in> set before. fst (refactor_sprite_script fs b) \<noteq> Inl Exception) \<longrightarrow>
                  snd (sprite_main listing fs) script = snd (refactor_sprite_script fs script) script"
    proof (intro allI impI)
      fix before script after
      assume h: "scripts_of listing ''sprite'' = before @ script # after
                  \<and> (\<forall>b \<in> set before. fst (refactor_sprite_script fs b) \<noteq> Inl Exception)"
      then have dd: "distinct (map (\<lambda>script. script) (before @ script # after))" using ds by simp
      have "snd (run_batch refactor_sprite_script fs (before @ script # after) 0 0) script
              = snd (refactor_sprite_script fs script) script"
        using run_batch_reached [of "\<lambda>script. script" refactor_sprite_script before script after fs fs 0 0,
            OF sprite_frame sprite_local dd] h
        by blast
      then show "snd (sprite_main listing fs) script = snd (refactor_sprite_script fs script) script"
        using h sm rs by simp
    qed
    show "(fst (sprite_main listing fs) = 0
               \<longleftrightarrow> (\<forall>script \<in> set (scripts_of listing ''sprite'').
                      fst (refactor_sprite_script fs script) = Inr True))
            \<and> (\<forall>before script after.
                  scripts_of listing ''sprite'' = before @ script # after
                  \<and> (\<forall>b \<in> set before. fst (refactor_sprite_script fs b) \<noteq> Inl Exception) \<longrightarrow>
                  snd (sprite_main listing fs) script = snd (refactor_sprite_script fs script) script)"
      using c1 c2 by (rule conjI)
  qed
  have e: "listing ''sprite'' = None \<longrightarrow> sprite_main listing fs = (1, fs)"
    by (simp add: sprite_main_def)
  have f: "fst (fix_braces_main oracle scanner_fs shell_files) = 0"
    by (rule fix_braces_status)
  show ?thesis using a b c e f by (intro conjI)
qed

subsection \<open>The example scripts\<close>

lemma example_refactored:
  "refactor_ssh_cloud_text ''DO_SERVER_IP'' example_script = Refactored example_rewritten"
  by code_simp

lemma plain_not_found:
  "refactor_ssh_cloud_text ''DO_SERVER_IP'' plain_script = Pattern_Not_Found"
  by code_simp

lemma plain_no_idiom: "snd (find_idiom ''DO_SERVER_IP'' plain_script) = None"
  by code_simp

lemma no_exports_found:
  "map_option m_group1 (snd (find_idiom ''DO_SERVER_IP'' no_exports_script))
     = Some (Some (''# none'' @ [newline]))"
  by code_simp

lemma no_exports_extracted: "extract_exports (''# none'' @ [newline]) = []"
  by code_simp

lemma examples_no_cr:
  "universal_newlines example_script = example_script"
  "universal_newlines plain_script = plain_script"
  "universal_newlines no_exports_script = no_exports_script"
  "universal_newlines unbraced_script = unbraced_script"
  by (rule universal_newlines_id, simp add: example_script_def plain_script_def no_exports_script_def
        unbraced_script_def idiom_block_def carriage_return_def newline_def)+

lemma example_differs: "example_rewritten \<noteq> example_script"
  by (simp add: example_rewritten_def example_script_def idiom_block_def)

lemma unbraced_fixed:
  "readlines unbraced_script \<noteq> map add_braces_to_line (readlines unbraced_script)"
  "fixed_text unbraced_script = braced_script"
  by code_simp+

text \<open>
  The handler of \<^verbatim>\<open>fix_file\<close> restores nothing: when the oracle raises, the result is
  \<^verbatim>\<open>False\<close> and the file keeps the text written on line 74.
\<close>

lemma fix_file_oracle_raises:
  "fix_file raising_oracle [claude_sh \<mapsto> unbraced_script] claude_sh
     = (False, [claude_sh \<mapsto> braced_script])"
proof -
  let ?fs = "[claude_sh \<mapsto> unbraced_script]"
  have h: "?fs claude_sh = Some unbraced_script" by simp
  show ?thesis
    using unbraced_fixed
    by (simp add: fix_file_cases [of ?fs claude_sh unbraced_script, OF h] raising_oracle_def)
qed

lemma ssh_script_on_text:
  assumes "fs p = Some raw"
  shows "refactor_ssh_cloud_script fs p ip = commit fs p (refactor_ssh_cloud_text ip (universal_newlines raw))"
  using assms by (simp add: refactor_ssh_cloud_script_def read_text_def)

lemma sprite_script_on_text:
  assumes "fs p = Some raw"
  shows "refactor_sprite_script fs p = commit fs p (refactor_sprite_text (universal_newlines raw))"
  using assms by (simp add: refactor_sprite_script_def read_text_def)

lemma example_script_refactored:
  assumes "fs p = Some example_script"
  shows "refactor_ssh_cloud_script fs p ''DO_SERVER_IP'' = (Inr True, fs(p \<mapsto> example_rewritten))"
  unfolding ssh_script_on_text [of fs p example_script, OF assms] examples_no_cr example_refactored
  by (simp add: commit_def)

lemma plain_script_untouched:
  assumes "fs p = Some plain_script"
  shows "refactor_ssh_cloud_script fs p ''DO_SERVER_IP'' = (Inr False, fs)"
  unfolding ssh_script_on_text [of fs p plain_script, OF assms] examples_no_cr plain_not_found
  by (simp add: commit_def)

text \<open>
  Claim C1, as amended. For a file without carriage returns that \<^verbatim>\<open>fix_file\<close> can read,
  when the run of the oracle on the rewritten text ends with a return code: a return code
  other than 0 leaves the file system as it was before the run, byte for byte, and the
  result is \<^verbatim>\<open>False\<close>; and the file system is changed only when the return code is 0, the
  file then holding the rewritten text and the result being \<^verbatim>\<open>True\<close>. For every file it
  can read, \<^verbatim>\<open>fix_file\<close> returns \<^verbatim>\<open>True\<close> only when the oracle has returned 0 on the text the
  file then holds, and it changes no other file. The refactoring functions consult no
  oracle: they write the new text whenever refactoring the text read gives one.
\<close>

theorem commit_only_if_valid:
  assumes "fs p = Some raw"
  shows "(carriage_return \<notin> set raw \<and> oracle (fixed_text raw) = Inr returncode \<longrightarrow>
            (returncode \<noteq> 0 \<longrightarrow> fix_file oracle fs p = (False, fs))
            \<and> (snd (fix_file oracle fs p) \<noteq> fs \<longrightarrow>
                 returncode = 0 \<and> fix_file oracle fs p = (True, fs(p \<mapsto> fixed_text raw))))
       \<and> (fst (fix_file oracle fs p) \<longrightarrow>
            oracle (fixed_text raw) = Inr 0
            \<and> snd (fix_file oracle fs p) = fs(p \<mapsto> fixed_text raw))
       \<and> (\<forall>q. q \<noteq> p \<longrightarrow> snd (fix_file oracle fs p) q = fs q)
       \<and> (\<forall>t. refactor_ssh_cloud_text ip (universal_newlines raw) = Refactored t \<longrightarrow>
            refactor_ssh_cloud_script fs p ip = (Inr True, fs(p \<mapsto> t)))
       \<and> (\<forall>t. refactor_sprite_text (universal_newlines raw) = Refactored t \<longrightarrow>
            refactor_sprite_script fs p = (Inr True, fs(p \<mapsto> t)))"
proof -
  have same: "fs(p \<mapsto> raw) = fs" using assms by (rule map_upd_triv)
  have fx: "(carriage_return \<notin> set raw \<and> oracle (fixed_text raw) = Inr returncode \<longrightarrow>
            (returncode \<noteq> 0 \<longrightarrow> fix_file oracle fs p = (False, fs))
            \<and> (snd (fix_file oracle fs p) \<noteq> fs \<longrightarrow>
                 returncode = 0 \<and> fix_file oracle fs p = (True, fs(p \<mapsto> fixed_text raw))))
       \<and> (fst (fix_file oracle fs p) \<longrightarrow>
            oracle (fixed_text raw) = Inr 0
            \<and> snd (fix_file oracle fs p) = fs(p \<mapsto> fixed_text raw))
       \<and> (\<forall>q. q \<noteq> p \<longrightarrow> snd (fix_file oracle fs p) q = fs q)"
    unfolding fix_file_cases [of fs p raw "oracle", OF assms]
    using same
    by (auto simp: universal_newlines_id split: sum.splits)
  have ssh: "\<forall>t. refactor_ssh_cloud_text ip (universal_newlines raw) = Refactored t \<longrightarrow>
            refactor_ssh_cloud_script fs p ip = (Inr True, fs(p \<mapsto> t))"
    by (simp add: ssh_script_on_text [of fs p raw, OF assms] commit_def)
  have sprite: "\<forall>t. refactor_sprite_text (universal_newlines raw) = Refactored t \<longrightarrow>
            refactor_sprite_script fs p = (Inr True, fs(p \<mapsto> t))"
    by (simp add: sprite_script_on_text [of fs p raw, OF assms] commit_def)
  show ?thesis using fx ssh sprite by blast
qed

theorem commit_only_if_valid_witness:
  "carriage_return \<notin> set unbraced_script
   \<and> rejecting_oracle (fixed_text unbraced_script) = Inr 2
   \<and> fix_file rejecting_oracle [claude_sh \<mapsto> unbraced_script] claude_sh
     = (False, [claude_sh \<mapsto> unbraced_script])
   \<and> accepting_oracle (fixed_text unbraced_script) = Inr 0
   \<and> fix_file accepting_oracle [claude_sh \<mapsto> unbraced_script] claude_sh
     = (True, [claude_sh \<mapsto> braced_script])
   \<and> [claude_sh \<mapsto> braced_script] \<noteq> [claude_sh \<mapsto> unbraced_script]
   \<and> refactor_ssh_cloud_script [claude_sh \<mapsto> example_script] claude_sh ''DO_SERVER_IP''
     = (Inr True, [claude_sh \<mapsto> example_rewritten])"
proof -
  let ?fs = "[claude_sh \<mapsto> unbraced_script]"
  have h: "?fs claude_sh = Some unbraced_script" by simp
  have nocr: "carriage_return \<notin> set unbraced_script"
    by (simp add: unbraced_script_def carriage_return_def newline_def)
  have rej: "rejecting_oracle (fixed_text unbraced_script) = Inr 2"
    by (simp add: rejecting_oracle_def)
  have acc: "accepting_oracle (fixed_text unbraced_script) = Inr 0"
    by (simp add: accepting_oracle_def)
  note t1 = commit_only_if_valid [of ?fs claude_sh unbraced_script rejecting_oracle 2, OF h]
  have r1: "fix_file rejecting_oracle ?fs claude_sh = (False, ?fs)"
    using t1 rej nocr by simp
  have changed: "[claude_sh \<mapsto> braced_script] \<noteq> ?fs"
  proof
    assume "[claude_sh \<mapsto> braced_script] = ?fs"
    then have "[claude_sh \<mapsto> braced_script] claude_sh = ?fs claude_sh" by (rule arg_cong)
    then show False by (simp add: braced_script_def unbraced_script_def)
  qed
  have written: "snd (fix_file accepting_oracle ?fs claude_sh) = [claude_sh \<mapsto> braced_script]"
    using unbraced_fixed
    by (simp add: fix_file_cases [of ?fs claude_sh unbraced_script, OF h] accepting_oracle_def)
  note t2 = commit_only_if_valid [of ?fs claude_sh unbraced_script accepting_oracle 0, OF h]
  have r2: "fix_file accepting_oracle ?fs claude_sh = (True, [claude_sh \<mapsto> braced_script])"
    using t2 acc nocr written changed unbraced_fixed(2) by simp
  let ?gs = "[claude_sh \<mapsto> example_script]"
  have g: "?gs claude_sh = Some example_script" by simp
  note t3 = commit_only_if_valid [of ?gs claude_sh example_script _ _ "''DO_SERVER_IP''", OF g]
  have r3: "refactor_ssh_cloud_script ?gs claude_sh ''DO_SERVER_IP''
     = (Inr True, [claude_sh \<mapsto> example_rewritten])"
    using t3 example_refactored examples_no_cr(1) by simp
  show ?thesis using nocr rej acc r1 r2 changed r3 by blast
qed

text \<open>
  The claim as it was stated fails for the refactoring functions: the example script is
  rewritten and the new text stays in the file, though no oracle has seen it; one that
  rejects every text would have rejected it.
\<close>

theorem refactor_writes_unchecked:
  "refactor_ssh_cloud_script [claude_sh \<mapsto> example_script] claude_sh ''DO_SERVER_IP''
     = (Inr True, [claude_sh \<mapsto> example_rewritten])
   \<and> example_rewritten \<noteq> example_script
   \<and> rejecting_oracle example_rewritten = Inr 2"
  using example_script_refactored [of "[claude_sh \<mapsto> example_script]" claude_sh] example_differs
  by (simp add: rejecting_oracle_def)

theorem failed_refactor_leaves_file_witness:
  "refactor_ssh_cloud_script [claude_sh \<mapsto> plain_script] claude_sh ''DO_SERVER_IP''
     = (Inr False, [claude_sh \<mapsto> plain_script])
   \<and> snd (find_idiom ''DO_SERVER_IP'' plain_script) = None
   \<and> refactor_ssh_cloud_script [claude_sh \<mapsto> no_exports_script] claude_sh ''DO_SERVER_IP''
     = (Inr False, [claude_sh \<mapsto> no_exports_script])
   \<and> map_option m_group1 (snd (find_idiom ''DO_SERVER_IP'' no_exports_script))
     = Some (Some (''# none'' @ [newline]))
   \<and> extract_exports (''# none'' @ [newline]) = []"
proof -
  let ?fs = "[claude_sh \<mapsto> plain_script]"
  have a: "refactor_ssh_cloud_script ?fs claude_sh ''DO_SERVER_IP'' = (Inr False, ?fs)"
  proof (rule failed_refactor_leaves_file [of ?fs claude_sh plain_script plain_script "''DO_SERVER_IP''"
        "fst (find_idiom ''DO_SERVER_IP'' plain_script)" "snd (find_idiom ''DO_SERVER_IP'' plain_script)"])
    show "?fs claude_sh = Some plain_script" by simp
    show "plain_script = universal_newlines plain_script" by (simp add: examples_no_cr)
    show "find_idiom ''DO_SERVER_IP'' plain_script
        = (fst (find_idiom ''DO_SERVER_IP'' plain_script), snd (find_idiom ''DO_SERVER_IP'' plain_script))"
      by simp
    show "snd (find_idiom ''DO_SERVER_IP'' plain_script) = None
       \<or> (\<exists>m body. snd (find_idiom ''DO_SERVER_IP'' plain_script) = Some m \<and> m_group1 m = Some body
              \<and> extract_exports body = [])
       \<or> (\<exists>m body. snd (find_idiom ''DO_SERVER_IP'' plain_script) = Some m \<and> m_group1 m = Some body
              \<and> re_sub (fst (find_idiom ''DO_SERVER_IP'' plain_script))
                   (ssh_replacement ''DO_SERVER_IP'' (extract_exports body)) plain_script
                 = Inr plain_script)"
      using plain_no_idiom by simp
  qed
  let ?gs = "[claude_sh \<mapsto> no_exports_script]"
  obtain m where m: "snd (find_idiom ''DO_SERVER_IP'' no_exports_script) = Some m"
    and g: "m_group1 m = Some (''# none'' @ [newline])"
    using no_exports_found by (cases "snd (find_idiom ''DO_SERVER_IP'' no_exports_script)") auto
  have b: "refactor_ssh_cloud_script ?gs claude_sh ''DO_SERVER_IP'' = (Inr False, ?gs)"
  proof (rule failed_refactor_leaves_file [of ?gs claude_sh no_exports_script no_exports_script
        "''DO_SERVER_IP''" "fst (find_idiom ''DO_SERVER_IP'' no_exports_script)"
        "snd (find_idiom ''DO_SERVER_IP'' no_exports_script)"])
    show "?gs claude_sh = Some no_exports_script" by simp
    show "no_exports_script = universal_newlines no_exports_script" by (simp add: examples_no_cr)
    show "find_idiom ''DO_SERVER_IP'' no_exports_script
        = (fst (find_idiom ''DO_SERVER_IP'' no_exports_script),
           snd (find_idiom ''DO_SERVER_IP'' no_exports_script))"
      by simp
    show "snd (find_idiom ''DO_SERVER_IP'' no_exports_script) = None
       \<or> (\<exists>m body. snd (find_idiom ''DO_SERVER_IP'' no_exports_script) = Some m \<and> m_group1 m = Some body
              \<and> extract_exports body = [])
       \<or> (\<exists>m body. snd (find_idiom ''DO_SERVER_IP'' no_exports_script) = Some m \<and> m_group1 m = Some body
              \<and> re_sub (fst (find_idiom ''DO_SERVER_IP'' no_exports_script))
                   (ssh_replacement ''DO_SERVER_IP'' (extract_exports body)) no_exports_script
                 = Inr no_exports_script)"
      using m g no_exports_extracted by blast
  qed
  show ?thesis using a b plain_no_idiom no_exports_found no_exports_extracted by blast
qed

lemma example_body_lines:
  "export_lines (''export A=1'' @ [newline] @ ''export B=\"${OPENROUTER_API_KEY}\"'' @ [newline])
     = [''export A=1'', ''export B=\"${OPENROUTER_API_KEY}\"'']"
  "map quoted_arg [''export A=1'', ''export B=\"${OPENROUTER_API_KEY}\"'']
     = [''\"A=1\"'', ''\"B=$OPENROUTER_API_KEY\"'']"
  by code_simp+

theorem rendered_args_follow_export_lines_witness:
  "refactor_ssh_cloud_script [claude_sh \<mapsto> example_script] claude_sh ''DO_SERVER_IP''
     = (Inr True, [claude_sh \<mapsto> example_rewritten])
   \<and> (\<exists>pattern m body.
         find_idiom ''DO_SERVER_IP'' example_script = (pattern, Some m)
       \<and> m_group1 m = Some body
       \<and> extract_exports body = map quoted_arg (export_lines body)
       \<and> re_sub pattern (ssh_replacement ''DO_SERVER_IP'' (map quoted_arg (export_lines body)))
            example_script = Inr example_rewritten)
   \<and> map quoted_arg (export_lines
         (''export A=1'' @ [newline] @ ''export B=\"${OPENROUTER_API_KEY}\"'' @ [newline]))
       = [''\"A=1\"'', ''\"B=$OPENROUTER_API_KEY\"'']"
proof -
  let ?fs = "[claude_sh \<mapsto> example_script]"
  have r: "refactor_ssh_cloud_script ?fs claude_sh ''DO_SERVER_IP''
     = (Inr True, ?fs(claude_sh \<mapsto> example_rewritten))"
    by (rule example_script_refactored) simp
  obtain raw pattern m body new_content where
    raw: "?fs claude_sh = Some raw"
    and f: "find_idiom ''DO_SERVER_IP'' (universal_newlines raw) = (pattern, Some m)"
    and g: "m_group1 m = Some body"
    and e: "extract_exports body = map quoted_arg (export_lines body)"
    and sb: "re_sub pattern (ssh_replacement ''DO_SERVER_IP'' (extract_exports body)) (universal_newlines raw)
              = Inr new_content"
    and w: "?fs(claude_sh \<mapsto> example_rewritten) = ?fs(claude_sh \<mapsto> new_content)"
    using rendered_args_follow_export_lines [OF r] by blast
  have raw_eq: "raw = example_script" using raw by simp
  have "(?fs(claude_sh \<mapsto> example_rewritten)) claude_sh = (?fs(claude_sh \<mapsto> new_content)) claude_sh"
    using w by simp
  then have new_eq: "new_content = example_rewritten" by simp
  have "\<exists>pattern m body.
         find_idiom ''DO_SERVER_IP'' example_script = (pattern, Some m)
       \<and> m_group1 m = Some body
       \<and> extract_exports body = map quoted_arg (export_lines body)
       \<and> re_sub pattern (ssh_replacement ''DO_SERVER_IP'' (map quoted_arg (export_lines body)))
            example_script = Inr example_rewritten"
    using f g e sb raw_eq new_eq examples_no_cr(1) by auto
  then show ?thesis using r example_body_lines by simp
qed

lemma two_blocks_refactored:
  "refactor_ssh_cloud_text ''DO_SERVER_IP'' two_blocks = Refactored (call_with_A @ call_with_A)"
  by code_simp

lemma two_blocks_first_match:
  "map_option (\<lambda>m. (m_before m, m_group0 m, m_group1 m, m_after m))
       (snd (find_idiom ''DO_SERVER_IP'' two_blocks))
     = Some ([], idiom_block ''DO_SERVER_IP'' (''export A=1'' @ [newline]),
             Some (''export A=1'' @ [newline]),
             idiom_block ''DO_SERVER_IP'' (''export B=2'' @ [newline]))"
  by code_simp

lemma two_blocks_no_cr: "universal_newlines two_blocks = two_blocks"
  by (rule universal_newlines_id)
     (simp add: two_blocks_def idiom_block_def carriage_return_def newline_def)

text \<open>
  Claim C4. In a script with two blocks, the match is the first block and the text after
  it is the second block; \<^verbatim>\<open>pattern.sub\<close> replaces both, the second too by the call made
  from the export lines of the first, so the text after the match is not preserved.
\<close>

theorem every_occurrence_replaced:
  "refactor_ssh_cloud_script [claude_sh \<mapsto> two_blocks] claude_sh ''DO_SERVER_IP''
     = (Inr True, [claude_sh \<mapsto> call_with_A @ call_with_A])
   \<and> map_option (\<lambda>m. (m_before m, m_group0 m, m_group1 m, m_after m))
         (snd (find_idiom ''DO_SERVER_IP'' two_blocks))
       = Some ([], idiom_block ''DO_SERVER_IP'' (''export A=1'' @ [newline]),
               Some (''export A=1'' @ [newline]),
               idiom_block ''DO_SERVER_IP'' (''export B=2'' @ [newline]))
   \<and> call_with_A @ call_with_A
       \<noteq> call_with_A @ idiom_block ''DO_SERVER_IP'' (''export B=2'' @ [newline])"
proof -
  let ?fs = "[claude_sh \<mapsto> two_blocks]"
  have h: "?fs claude_sh = Some two_blocks" by simp
  have a: "refactor_ssh_cloud_script ?fs claude_sh ''DO_SERVER_IP''
     = (Inr True, [claude_sh \<mapsto> call_with_A @ call_with_A])"
    unfolding ssh_script_on_text [of ?fs claude_sh two_blocks, OF h] two_blocks_no_cr
      two_blocks_refactored
    by (simp add: commit_def)
  have c: "call_with_A @ call_with_A
       \<noteq> call_with_A @ idiom_block ''DO_SERVER_IP'' (''export B=2'' @ [newline])"
    by (simp add: call_with_A_def idiom_block_def)
  show ?thesis using a two_blocks_first_match c by blast
qed

lemma example_candidates:
  "candidates example_listing = [(claude_sh, ''DO_SERVER_IP''), (aider_sh, ''DO_SERVER_IP'')]"
  by (simp add: candidates_def cloud_configs_def scripts_of_def example_listing_def
        claude_sh_def aider_sh_def)

lemma example_listing_distinct:
  "\<forall>dir names. example_listing dir = Some names \<longrightarrow> distinct names"
  by (simp add: example_listing_def)

lemma example_fs_lookup:
  "example_fs claude_sh = Some example_script" "example_fs aider_sh = Some plain_script"
  by (simp_all add: example_fs_def claude_sh_def aider_sh_def)

theorem batch_exit_status_witness:
  "fst (env_injection_main example_listing example_fs) \<noteq> 0
   \<and> snd (env_injection_main example_listing example_fs) claude_sh = Some example_rewritten
   \<and> snd (env_injection_main example_listing example_fs) aider_sh = Some plain_script
   \<and> fst (refactor_candidate example_fs (claude_sh, ''DO_SERVER_IP'')) = Inr True
   \<and> fst (refactor_candidate example_fs (aider_sh, ''DO_SERVER_IP'')) = Inr False
   \<and> sprite_main example_listing example_fs = (1, example_fs)
   \<and> fst (fix_braces_main rejecting_oracle example_fs [claude_sh, aider_sh]) = 0"
proof -
  have c1: "refactor_candidate example_fs (claude_sh, ''DO_SERVER_IP'')
      = (Inr True, example_fs(claude_sh \<mapsto> example_rewritten))"
    using example_script_refactored [of example_fs claude_sh, OF example_fs_lookup(1)]
    by (simp add: refactor_candidate_def)
  have c2: "refactor_candidate example_fs (aider_sh, ''DO_SERVER_IP'') = (Inr False, example_fs)"
    using plain_script_untouched [of example_fs aider_sh, OF example_fs_lookup(2)]
    by (simp add: refactor_candidate_def)
  have ns: "example_listing ''sprite'' = None" by (simp add: example_listing_def)
  note t = batch_exit_status [OF example_listing_distinct, of example_fs rejecting_oracle example_fs
      "[claude_sh, aider_sh]"]
  have s: "fst (env_injection_main example_listing example_fs) \<noteq> 0"
    using t c2 by (simp add: example_candidates)
  have reached: "\<And>before c after.
      candidates example_listing = before @ c # after \<Longrightarrow>
      \<forall>b \<in> set before. fst (refactor_candidate example_fs b) \<noteq> Inl Exception \<Longrightarrow>
      snd (env_injection_main example_listing example_fs) (fst c)
        = snd (refactor_candidate example_fs c) (fst c)"
    using t by blast
  have f1: "snd (env_injection_main example_listing example_fs) claude_sh = Some example_rewritten"
    using reached [of "[]" "(claude_sh, ''DO_SERVER_IP'')" "[(aider_sh, ''DO_SERVER_IP'')]"] c1
    by (simp add: example_candidates)
  have f2: "snd (env_injection_main example_listing example_fs) aider_sh = Some plain_script"
    using reached [of "[(claude_sh, ''DO_SERVER_IP'')]" "(aider_sh, ''DO_SERVER_IP'')" "[]"] c1 c2
      example_fs_lookup(2)
    by (simp add: example_candidates)
  have sp: "sprite_main example_listing example_fs = (1, example_fs)" using t ns by blast
  have fb: "fst (fix_braces_main rejecting_oracle example_fs [claude_sh, aider_sh]) = 0"
    using t by blast
  show ?thesis using s f1 f2 c1 c2 sp fb by simp
qed

text \<open>
  The claim as it was stated fails for the driver of fix\_braces.py: the oracle rejects the
  rewritten file, \<^verbatim>\<open>fix_file\<close> restores it and returns \<^verbatim>\<open>False\<close>, and the status is 0.
\<close>

theorem scanner_driver_always_zero:
  "fst (fix_braces_main rejecting_oracle [claude_sh \<mapsto> unbraced_script] [claude_sh]) = 0
   \<and> \<not> fst (fix_file rejecting_oracle [claude_sh \<mapsto> unbraced_script] claude_sh)
   \<and> snd (fix_file rejecting_oracle [claude_sh \<mapsto> unbraced_script] claude_sh) claude_sh
       = Some unbraced_script
   \<and> fixed_text unbraced_script \<noteq> unbraced_script"
proof -
  let ?fs = "[claude_sh \<mapsto> unbraced_script]"
  have h: "?fs claude_sh = Some unbraced_script" by simp
  have "fix_file rejecting_oracle ?fs claude_sh = (False, ?fs(claude_sh \<mapsto> unbraced_script))"
    using unbraced_fixed(1)
    by (simp add: fix_file_cases [of ?fs claude_sh unbraced_script, OF h] rejecting_oracle_def
          examples_no_cr)
  moreover have "fixed_text unbraced_script \<noteq> unbraced_script"
    unfolding unbraced_fixed(2) by (simp add: braced_script_def unbraced_script_def)
  ultimately show ?thesis by (simp add: fix_braces_status)
qed

end
